theory Spec2Isabelle
  imports Main
begin

section \<open>Values and the clone-on-write, clone-on-read rule (Node.ts)\<close>

text \<open>
  A payload is a JavaScript value. Scalars and functions have no identity that matters
  here; an array or a plain object is a heap object, so it carries the identity under
  which it was allocated (a natural number). Two composite values alias each other when
  they share an identity; they are structurally equal when they agree once identities
  are forgotten. The elements of an array that is a payload are all present; the holes
  of the array handed to \<^verbatim>\<open>fromArray\<close> are modelled below.
\<close>

datatype jsval =
    JNull
  | JUndefined
  | JBool bool
  | JNum int
  | JStr string
  | JFun nat
  | JArr nat "jsval list"
  | JObj nat "(string \<times> jsval) list"

text \<open>
  Modelled from the spec: the deep structural clone and the is-composite test are the
  external lodash functions \<^verbatim>\<open>cloneDeep\<close>, \<^verbatim>\<open>isPlainObject\<close> and the built-in
  \<^verbatim>\<open>Array.isArray\<close>, which are not part of the repository. Following section 6 of
  the specification, the clone of a composite value is a structurally equal value all of
  whose composite parts are freshly allocated (identities taken from the allocation
  counter, which is returned advanced); a scalar or a function is returned as it is.
\<close>

fun cloneDeep :: "jsval \<Rightarrow> nat \<Rightarrow> jsval \<times> nat"
  and cloneDeeps :: "jsval list \<Rightarrow> nat \<Rightarrow> jsval list \<times> nat"
  and cloneFields :: "(string \<times> jsval) list \<Rightarrow> nat \<Rightarrow> (string \<times> jsval) list \<times> nat"
where
  "cloneDeep (JArr i vs) n = (case cloneDeeps vs (Suc n) of (vs', n') \<Rightarrow> (JArr n vs', n'))"
| "cloneDeep (JObj i fs) n = (case cloneFields fs (Suc n) of (fs', n') \<Rightarrow> (JObj n fs', n'))"
| "cloneDeep JNull n = (JNull, n)"
| "cloneDeep JUndefined n = (JUndefined, n)"
| "cloneDeep (JBool b) n = (JBool b, n)"
| "cloneDeep (JNum k) n = (JNum k, n)"
| "cloneDeep (JStr s) n = (JStr s, n)"
| "cloneDeep (JFun f) n = (JFun f, n)"
| "cloneDeeps [] n = ([], n)"
| "cloneDeeps (v # vs) n =
     (case cloneDeep v n of (v', n') \<Rightarrow>
        (case cloneDeeps vs n' of (vs', n'') \<Rightarrow> (v' # vs', n'')))"
| "cloneFields [] n = ([], n)"
| "cloneFields ((k, v) # fs) n =
     (case cloneDeep v n of (v', n') \<Rightarrow>
        (case cloneFields fs n' of (fs', n'') \<Rightarrow> ((k, v') # fs', n'')))"

fun isPlainObject :: "jsval \<Rightarrow> bool" where
  "isPlainObject (JObj i fs) = True"
| "isPlainObject v = False"

fun isArray :: "jsval \<Rightarrow> bool" where
  "isArray (JArr i vs) = True"
| "isArray v = False"

text \<open>\<^verbatim>\<open>clonePlain\<close>: deeply clones plain objects and arrays, returns anything else as it is.\<close>

definition clonePlain :: "jsval \<Rightarrow> nat \<Rightarrow> jsval \<times> nat" where
  "clonePlain obj n = (if isPlainObject obj \<or> isArray obj then cloneDeep obj n else (obj, n))"

text \<open>Forgetting identities, and the identities a value is built from.\<close>

fun strip :: "jsval \<Rightarrow> jsval" where
  "strip (JArr i vs) = JArr 0 (map strip vs)"
| "strip (JObj i fs) = JObj 0 (map (\<lambda>kv. (fst kv, strip (snd kv))) fs)"
| "strip v = v"

fun idents :: "jsval \<Rightarrow> nat set" where
  "idents (JArr i vs) = insert i (\<Union>v \<in> set vs. idents v)"
| "idents (JObj i fs) = insert i (\<Union>kv \<in> set fs. idents (snd kv))"
| "idents v = {}"

definition struct_eq :: "jsval \<Rightarrow> jsval \<Rightarrow> bool" where
  "struct_eq a b = (strip a = strip b)"

section \<open>Nodes and the store\<close>

type_synonym addr = nat

record node =
  data :: jsval
  "next" :: "addr option"
  prev :: "addr option"

text \<open>
  The store holds every \<^verbatim>\<open>Node\<close> object by address, the address the next
  \<^verbatim>\<open>new Node\<close> receives, and the allocation counter of composite payload values. A
  reference is \<open>Some a\<close>, and \<open>None\<close> is \<^verbatim>\<open>null\<close>.
\<close>

record store =
  nodes :: "addr \<Rightarrow> node"
  next_node :: addr
  next_obj :: nat

definition empty_store :: store where
  "empty_store = \<lparr>nodes = (\<lambda>a. \<lparr>data = JUndefined, next = None, prev = None\<rparr>),
                  next_node = 0, next_obj = 0\<rparr>"

text \<open>\<^verbatim>\<open>new Node(data, prev, next)\<close>: the payload is cloned on the way in.\<close>

definition Node_new :: "jsval \<Rightarrow> addr option \<Rightarrow> addr option \<Rightarrow> store \<Rightarrow> addr \<times> store" where
  "Node_new d p n s =
     (case clonePlain d (next_obj s) of (d', k) \<Rightarrow>
        (next_node s,
         s\<lparr>nodes := (nodes s)(next_node s := \<lparr>data = d', next = n, prev = p\<rparr>),
           next_node := Suc (next_node s),
           next_obj := k\<rparr>))"

text \<open>\<^verbatim>\<open>getData\<close>: the payload is cloned on the way out.\<close>

definition getData :: "addr \<Rightarrow> store \<Rightarrow> jsval \<times> store" where
  "getData a s =
     (case clonePlain (data (nodes s a)) (next_obj s) of (d, k) \<Rightarrow> (d, s\<lparr>next_obj := k\<rparr>))"

definition getNext :: "store \<Rightarrow> addr \<Rightarrow> addr option" where
  "getNext s a = next (nodes s a)"

definition getPrev :: "store \<Rightarrow> addr \<Rightarrow> addr option" where
  "getPrev s a = prev (nodes s a)"

definition setNext :: "addr \<Rightarrow> addr option \<Rightarrow> store \<Rightarrow> store" where
  "setNext a v s = s\<lparr>nodes := (nodes s)(a := (nodes s a)\<lparr>next := v\<rparr>)\<rparr>"

definition setPrev :: "addr \<Rightarrow> addr option \<Rightarrow> store \<Rightarrow> store" where
  "setPrev a v s = s\<lparr>nodes := (nodes s)(a := (nodes s a)\<lparr>prev := v\<rparr>)\<rparr>"

section \<open>The list (DLinkedList.ts)\<close>

record dll =
  head_node :: "addr option"
  tail_node :: "addr option"
  length_dll :: int

text \<open>
  What the code throws: \<^verbatim>\<open>new Error(message)\<close>, or the \<^verbatim>\<open>TypeError\<close> of the runtime
  when a method is called on \<^verbatim>\<open>null\<close>.
\<close>

datatype error = Error string | TypeError

definition NotFound :: error where
  "NotFound = Error ''Unable to find a node matching predicate.''"

text \<open>\<^verbatim>\<open>new DLinkedList()\<close>\<close>

definition new_dll :: dll where
  "new_dll = \<lparr>head_node = None, tail_node = None, length_dll = 0\<rparr>"

text \<open>
  A method mutates \<^verbatim>\<open>this\<close> and the nodes in place and returns \<^verbatim>\<open>this\<close>: the model
  returns the list object and the store as they are when the method returns or throws,
  together with the outcome where the method can throw.
\<close>

definition headNode :: "dll \<Rightarrow> addr option" where
  "headNode l = (case head_node l of Some a \<Rightarrow> Some a | None \<Rightarrow> None)"

definition tailNode :: "dll \<Rightarrow> addr option" where
  "tailNode l = (case tail_node l of Some a \<Rightarrow> Some a | None \<Rightarrow> None)"

definition head :: "dll \<Rightarrow> store \<Rightarrow> jsval \<times> store" where
  "head l s = (case head_node l of Some a \<Rightarrow> getData a s | None \<Rightarrow> (JNull, s))"

definition tail :: "dll \<Rightarrow> store \<Rightarrow> jsval \<times> store" where
  "tail l s = (case tail_node l of Some a \<Rightarrow> getData a s | None \<Rightarrow> (JNull, s))"

definition prepend :: "jsval \<Rightarrow> dll \<Rightarrow> store \<Rightarrow> dll \<times> store" where
  "prepend d l s =
     (case head_node l of
        None \<Rightarrow>
          (case Node_new d None None s of (n, s') \<Rightarrow>
             (l\<lparr>head_node := Some n, tail_node := Some n, length_dll := length_dll l + 1\<rparr>, s'))
      | Some h \<Rightarrow>
          (case Node_new d None (Some h) s of (n, s') \<Rightarrow>
             (l\<lparr>head_node := Some n, length_dll := length_dll l + 1\<rparr>,
              setPrev h (Some n) s')))"

definition append_dll :: "jsval \<Rightarrow> dll \<Rightarrow> store \<Rightarrow> (error + unit) \<times> dll \<times> store" where
  "append_dll d l s =
     (case head_node l of
        None \<Rightarrow>
          (case Node_new d None None s of (n, s') \<Rightarrow>
             (Inr (),
              l\<lparr>head_node := Some n, tail_node := Some n, length_dll := length_dll l + 1\<rparr>,
              s'))
      | Some h \<Rightarrow>
          (case Node_new d (tail_node l) None s of (n, s') \<Rightarrow>
             (case tail_node l of
                None \<Rightarrow> (Inl TypeError, l, s')
              | Some t \<Rightarrow>
                  (Inr (),
                   l\<lparr>tail_node := Some n, length_dll := length_dll l + 1\<rparr>,
                   setNext t (Some n) s'))))"

definition removeHead :: "dll \<Rightarrow> store \<Rightarrow> dll \<times> store" where
  "removeHead l s =
     (case head_node l of
        None \<Rightarrow> (l, s)
      | Some h \<Rightarrow>
          (case getNext s h of
             None \<Rightarrow>
               (l\<lparr>head_node := None, tail_node := None, length_dll := length_dll l - 1\<rparr>, s)
           | Some n \<Rightarrow>
               (l\<lparr>head_node := Some n, length_dll := length_dll l - 1\<rparr>, setPrev n None s)))"

definition removeTail :: "dll \<Rightarrow> store \<Rightarrow> dll \<times> store" where
  "removeTail l s =
     (case tail_node l of
        None \<Rightarrow> (l, s)
      | Some t \<Rightarrow>
          (case getPrev s t of
             None \<Rightarrow>
               (l\<lparr>head_node := None, tail_node := None, length_dll := length_dll l - 1\<rparr>, s)
           | Some p \<Rightarrow>
               (l\<lparr>tail_node := Some p, length_dll := length_dll l - 1\<rparr>, setNext p None s)))"

definition clear :: "dll \<Rightarrow> dll" where
  "clear l = l\<lparr>head_node := None, tail_node := None, length_dll := 0\<rparr>"

text \<open>
  \<^verbatim>\<open>removeNode\<close>: the second rewiring calls \<^verbatim>\<open>setPrev\<close> on \<^verbatim>\<open>node.getNext()\<close>, which
  is \<^verbatim>\<open>null\<close> for the last node; the call then throws after the first rewiring has
  been done and before the length is decremented.
\<close>

definition removeNode :: "addr option \<Rightarrow> dll \<Rightarrow> store \<Rightarrow> (error + unit) \<times> dll \<times> store" where
  "removeNode node l s =
     (case node of
        None \<Rightarrow> (Inr (), l, s)
      | Some a \<Rightarrow>
          (case getPrev s a of
             None \<Rightarrow> (case removeHead l s of (l', s') \<Rightarrow> (Inr (), l', s'))
           | Some p \<Rightarrow>
               (let s1 = setNext p (getNext s a) s in
                  (case getNext s1 a of
                     None \<Rightarrow> (Inl TypeError, l, s1)
                   | Some n \<Rightarrow>
                       (Inr (),
                        l\<lparr>length_dll := length_dll l - 1\<rparr>,
                        setPrev n (getPrev s1 a) s1)))))"

text \<open>
  The scanning loops follow \<^verbatim>\<open>next\<close> (or \<^verbatim>\<open>prev\<close>) until \<^verbatim>\<open>null\<close>; on a cyclic
  chain they do not return, which is the value \<open>None\<close>. A predicate is a function of
  the payload it is handed, with the truth value of what it returns as its result; an
  iteratee is a function of its arguments.
\<close>

partial_function (option) findNode_loop ::
  "(jsval \<Rightarrow> bool) \<Rightarrow> addr option \<Rightarrow> store \<Rightarrow> (addr option \<times> store) option"
where
  "findNode_loop predicate current s =
     (case current of
        None \<Rightarrow> Some (None, s)
      | Some a \<Rightarrow>
          (case getData a s of (d, s') \<Rightarrow>
             if predicate d then Some (Some a, s')
             else findNode_loop predicate (getNext s' a) s'))"

definition findNode :: "(jsval \<Rightarrow> bool) \<Rightarrow> dll \<Rightarrow> store \<Rightarrow> (addr option \<times> store) option" where
  "findNode predicate l s = findNode_loop predicate (head_node l) s"

text \<open>
  An array given by the caller can have holes (\<^verbatim>\<open>[1, , 3]\<close> has length 3 and no
  element at index 1): it is a list of optional values, \<open>None\<close> being a hole. An
  array the code builds with \<^verbatim>\<open>push\<close> has none.
\<close>

type_synonym jsarray = "jsval option list"

definition dense :: "jsval list \<Rightarrow> jsarray" where
  "dense vs = map Some vs"

text \<open>
  \<^verbatim>\<open>fromArray\<close> (instance form): \<^verbatim>\<open>arr.forEach\<close> appends each value to \<^verbatim>\<open>this\<close>,
  skipping the holes of the array; an exception leaves the loop. The static form calls
  it on a new list.
\<close>

fun fromArray :: "jsarray \<Rightarrow> dll \<Rightarrow> store \<Rightarrow> (error + unit) \<times> dll \<times> store" where
  "fromArray [] l s = (Inr (), l, s)"
| "fromArray (None # vs) l s = fromArray vs l s"
| "fromArray (Some v # vs) l s =
     (case append_dll v l s of
        (Inl e, l', s') \<Rightarrow> (Inl e, l', s')
      | (Inr u, l', s') \<Rightarrow> fromArray vs l' s')"

definition fromArray_static :: "jsarray \<Rightarrow> store \<Rightarrow> (error + unit) \<times> dll \<times> store" where
  "fromArray_static arr s = fromArray arr new_dll s"

text \<open>The elements of an array that \<^verbatim>\<open>forEach\<close> visits, in order.\<close>

fun present :: "jsarray \<Rightarrow> jsval list" where
  "present [] = []"
| "present (None # vs) = present vs"
| "present (Some v # vs) = v # present vs"

partial_function (option) toArray_loop ::
  "addr option \<Rightarrow> jsval list \<Rightarrow> store \<Rightarrow> (jsval list \<times> store) option"
where
  "toArray_loop current results s =
     (case current of
        None \<Rightarrow> Some (results, s)
      | Some a \<Rightarrow>
          (case getData a s of (d, s') \<Rightarrow> toArray_loop (getNext s' a) (results @ [d]) s'))"

definition toArray :: "dll \<Rightarrow> store \<Rightarrow> (jsval list \<times> store) option" where
  "toArray l s = toArray_loop (head_node l) [] s"

text \<open>\<^verbatim>\<open>remove\<close>: the first node the predicate accepts is handed to \<^verbatim>\<open>removeNode\<close>.\<close>

definition remove_dll ::
  "(jsval \<Rightarrow> bool) \<Rightarrow> dll \<Rightarrow> store \<Rightarrow> ((error + unit) \<times> dll \<times> store) option"
where
  "remove_dll predicate l s =
     (case findNode predicate l s of
        None \<Rightarrow> None
      | Some (node, s') \<Rightarrow> Some (removeNode node l s'))"

text \<open>\<^verbatim>\<open>find\<close>: the payload of the first node the predicate accepts, or \<^verbatim>\<open>null\<close>.\<close>

definition find_dll :: "(jsval \<Rightarrow> bool) \<Rightarrow> dll \<Rightarrow> store \<Rightarrow> (jsval \<times> store) option" where
  "find_dll predicate l s =
     (case findNode predicate l s of
        None \<Rightarrow> None
      | Some (node, s') \<Rightarrow>
          Some (case node of Some a \<Rightarrow> getData a s' | None \<Rightarrow> (JNull, s')))"

definition insertAfterNode ::
  "addr option \<Rightarrow> jsval \<Rightarrow> dll \<Rightarrow> store \<Rightarrow> (error + unit) \<times> dll \<times> store"
where
  "insertAfterNode node d l s =
     (case node of
        Some a \<Rightarrow>
          (case getNext s a of
             None \<Rightarrow> append_dll d l s
           | Some nx \<Rightarrow>
               (case Node_new d (Some a) (getNext s a) s of (n, s') \<Rightarrow>
                  (case getNext s' a of
                     None \<Rightarrow> (Inl TypeError, l, s')
                   | Some nx' \<Rightarrow>
                       (Inr (),
                        l\<lparr>length_dll := length_dll l + 1\<rparr>,
                        setNext a (Some n) (setPrev nx' (Some n) s')))))
      | None \<Rightarrow> (Inl (Error ''Not able to insert data.''), l, s))"

definition insertBeforeNode ::
  "addr option \<Rightarrow> jsval \<Rightarrow> dll \<Rightarrow> store \<Rightarrow> (error + unit) \<times> dll \<times> store"
where
  "insertBeforeNode node d l s =
     (case node of
        Some a \<Rightarrow>
          (case getPrev s a of
             None \<Rightarrow> (case prepend d l s of (l', s') \<Rightarrow> (Inr (), l', s'))
           | Some pv \<Rightarrow>
               (case Node_new d (getPrev s a) (Some a) s of (n, s') \<Rightarrow>
                  (case getPrev s' a of
                     None \<Rightarrow> (Inl TypeError, l, s')
                   | Some pv' \<Rightarrow>
                       (Inr (),
                        l\<lparr>length_dll := length_dll l + 1\<rparr>,
                        setPrev a (Some n) (setNext pv' (Some n) s')))))
      | None \<Rightarrow> (Inl (Error ''Unable to insert data.''), l, s))"

definition insertAfter ::
  "(jsval \<Rightarrow> bool) \<Rightarrow> jsval \<Rightarrow> dll \<Rightarrow> store \<Rightarrow> ((error + unit) \<times> dll \<times> store) option"
where
  "insertAfter predicate d l s =
     (case findNode predicate l s of
        None \<Rightarrow> None
      | Some (node, s') \<Rightarrow>
          Some (case node of
                  None \<Rightarrow> (Inl NotFound, l, s')
                | Some a \<Rightarrow> insertAfterNode (Some a) d l s'))"

definition insertBefore ::
  "(jsval \<Rightarrow> bool) \<Rightarrow> jsval \<Rightarrow> dll \<Rightarrow> store \<Rightarrow> ((error + unit) \<times> dll \<times> store) option"
where
  "insertBefore predicate d l s =
     (case findNode predicate l s of
        None \<Rightarrow> None
      | Some (node, s') \<Rightarrow>
          Some (case node of
                  None \<Rightarrow> (Inl NotFound, l, s')
                | Some a \<Rightarrow> insertBeforeNode (Some a) d l s'))"

text \<open>
  \<^verbatim>\<open>map\<close> and \<^verbatim>\<open>mapRight\<close>: the results are collected in an array, from which a new
  list is built by the static \<^verbatim>\<open>fromArray\<close>. An omitted iteratee is the identity.
\<close>

partial_function (option) map_loop ::
  "(jsval \<Rightarrow> jsval) \<Rightarrow> addr option \<Rightarrow> jsval list \<Rightarrow> store \<Rightarrow> (jsval list \<times> store) option"
where
  "map_loop mapFn current results s =
     (case current of
        None \<Rightarrow> Some (results, s)
      | Some a \<Rightarrow>
          (case getData a s of (d, s') \<Rightarrow>
             map_loop mapFn (getNext s' a) (results @ [mapFn d]) s'))"

definition map_dll ::
  "(jsval \<Rightarrow> jsval) option \<Rightarrow> dll \<Rightarrow> store \<Rightarrow> ((error + unit) \<times> dll \<times> store) option"
where
  "map_dll iteratee l s =
     (let mapFn = (case iteratee of Some f \<Rightarrow> f | None \<Rightarrow> (\<lambda>ident. ident)) in
        (case map_loop mapFn (head_node l) [] s of
           None \<Rightarrow> None
         | Some (results, s') \<Rightarrow> Some (fromArray_static (dense results) s')))"

partial_function (option) mapRight_loop ::
  "(jsval \<Rightarrow> jsval) \<Rightarrow> addr option \<Rightarrow> jsval list \<Rightarrow> store \<Rightarrow> (jsval list \<times> store) option"
where
  "mapRight_loop mapFn current results s =
     (case current of
        None \<Rightarrow> Some (results, s)
      | Some a \<Rightarrow>
          (case getData a s of (d, s') \<Rightarrow>
             mapRight_loop mapFn (getPrev s' a) (results @ [mapFn d]) s'))"

definition mapRight ::
  "(jsval \<Rightarrow> jsval) option \<Rightarrow> dll \<Rightarrow> store \<Rightarrow> ((error + unit) \<times> dll \<times> store) option"
where
  "mapRight iteratee l s =
     (let mapFn = (case iteratee of Some f \<Rightarrow> f | None \<Rightarrow> (\<lambda>ident. ident)) in
        (case mapRight_loop mapFn (tail_node l) [] s of
           None \<Rightarrow> None
         | Some (results, s') \<Rightarrow> Some (fromArray_static (dense results) s')))"

text \<open>
  \<^verbatim>\<open>reduce\<close> and \<^verbatim>\<open>reduceRight\<close>: the accumulator is whatever the iteratee returns
  (the type parameter \<^verbatim>\<open>V\<close>); nothing is awaited.
\<close>

partial_function (option) reduce_loop ::
  "(jsval \<Rightarrow> 'v \<Rightarrow> 'v) \<Rightarrow> 'v \<Rightarrow> addr option \<Rightarrow> store \<Rightarrow> ('v \<times> store) option"
where
  "reduce_loop iteratee acc current s =
     (case current of
        None \<Rightarrow> Some (acc, s)
      | Some a \<Rightarrow>
          (case getData a s of (d, s') \<Rightarrow>
             reduce_loop iteratee (iteratee d acc) (getNext s' a) s'))"

definition reduce ::
  "(jsval \<Rightarrow> 'v \<Rightarrow> 'v) \<Rightarrow> 'v \<Rightarrow> dll \<Rightarrow> store \<Rightarrow> ('v \<times> store) option"
where
  "reduce iteratee accumulator l s = reduce_loop iteratee accumulator (head_node l) s"

partial_function (option) reduceRight_loop ::
  "(jsval \<Rightarrow> 'v \<Rightarrow> 'v) \<Rightarrow> 'v \<Rightarrow> addr option \<Rightarrow> store \<Rightarrow> ('v \<times> store) option"
where
  "reduceRight_loop iteratee acc current s =
     (case current of
        None \<Rightarrow> Some (acc, s)
      | Some a \<Rightarrow>
          (case getData a s of (d, s') \<Rightarrow>
             reduceRight_loop iteratee (iteratee d acc) (getPrev s' a) s'))"

definition reduceRight ::
  "(jsval \<Rightarrow> 'v \<Rightarrow> 'v) \<Rightarrow> 'v \<Rightarrow> dll \<Rightarrow> store \<Rightarrow> ('v \<times> store) option"
where
  "reduceRight iteratee accumulator l s = reduceRight_loop iteratee accumulator (tail_node l) s"

section \<open>The asynchronous operations\<close>

text \<open>
  Promises are part of the language, not of the repository. A promise is modelled by
  the way it settles: the tick at which it settles, and the value it is fulfilled with
  or the reason it is rejected with. A call of an asynchronous iteratee returns a plain
  value, returns a promise, or throws.

  \<^verbatim>\<open>Promise.resolve\<close> of a plain value is a promise fulfilled at once, and of a promise
  is that promise; when the call of the iteratee that is its argument throws, the
  exception leaves the expression (the outcome \<open>Inl\<close>). \<^verbatim>\<open>Promise.all\<close> is fulfilled with the values in the order of the
  array when every promise is fulfilled, and otherwise rejected with the reason of the
  promise that is rejected first (the earliest in the array among those of one tick).
  \<^verbatim>\<open>await\<close> gives the value of a fulfilled promise and throws the reason of a rejected
  one.
\<close>

datatype promise = Fulfills nat jsval | Rejects nat error

datatype iter_result = Returns jsval | ReturnsPromise promise | Throws error

text \<open>
  What a call that does not throw returns, and so what the accumulator of the
  synchronous \<^verbatim>\<open>reduce\<close> can hold: a plain value or a promise object.
\<close>

datatype returned = Plain jsval | Pending promise

fun as_result :: "returned \<Rightarrow> iter_result" where
  "as_result (Plain v) = Returns v"
| "as_result (Pending p) = ReturnsPromise p"

fun Promise_resolve :: "iter_result \<Rightarrow> error + promise" where
  "Promise_resolve (Returns v) = Inr (Fulfills 0 v)"
| "Promise_resolve (ReturnsPromise p) = Inr p"
| "Promise_resolve (Throws e) = Inl e"

fun await :: "promise \<Rightarrow> error + jsval" where
  "await (Fulfills t v) = Inr v"
| "await (Rejects t e) = Inl e"

fun first_rejection :: "promise list \<Rightarrow> (nat \<times> error) option" where
  "first_rejection [] = None"
| "first_rejection (Fulfills t v # ps) = first_rejection ps"
| "first_rejection (Rejects t e # ps) =
     (case first_rejection ps of
        None \<Rightarrow> Some (t, e)
      | Some (t', e') \<Rightarrow> if t' < t then Some (t', e') else Some (t, e))"

fun fulfilled_values :: "promise list \<Rightarrow> jsval list" where
  "fulfilled_values [] = []"
| "fulfilled_values (Fulfills t v # ps) = v # fulfilled_values ps"
| "fulfilled_values (Rejects t e # ps) = fulfilled_values ps"

definition Promise_all :: "promise list \<Rightarrow> error + jsval list" where
  "Promise_all ps =
     (case first_rejection ps of
        Some (t, e) \<Rightarrow> Inl e
      | None \<Rightarrow> Inr (fulfilled_values ps))"

text \<open>
  \<^verbatim>\<open>asyncMap\<close> and \<^verbatim>\<open>asyncMapRight\<close>: every iteratee is started in one pass over the
  chain, then all the promises are awaited together. An iteratee that throws ends the
  pass. The outcome \<open>Inl e\<close> is the rejection of the promise the method returns.
\<close>

partial_function (option) asyncMap_loop ::
  "(jsval \<Rightarrow> iter_result) \<Rightarrow> addr option \<Rightarrow> promise list \<Rightarrow> store
     \<Rightarrow> ((error + promise list) \<times> store) option"
where
  "asyncMap_loop iteratee current results s =
     (case current of
        None \<Rightarrow> Some (Inr results, s)
      | Some a \<Rightarrow>
          (case getData a s of (d, s') \<Rightarrow>
             (case Promise_resolve (iteratee d) of
                Inl e \<Rightarrow> Some (Inl e, s')
              | Inr p \<Rightarrow> asyncMap_loop iteratee (getNext s' a) (results @ [p]) s')))"

partial_function (option) asyncMapRight_loop ::
  "(jsval \<Rightarrow> iter_result) \<Rightarrow> addr option \<Rightarrow> promise list \<Rightarrow> store
     \<Rightarrow> ((error + promise list) \<times> store) option"
where
  "asyncMapRight_loop iteratee current results s =
     (case current of
        None \<Rightarrow> Some (Inr results, s)
      | Some a \<Rightarrow>
          (case getData a s of (d, s') \<Rightarrow>
             (case Promise_resolve (iteratee d) of
                Inl e \<Rightarrow> Some (Inl e, s')
              | Inr p \<Rightarrow> asyncMapRight_loop iteratee (getPrev s' a) (results @ [p]) s')))"

definition await_all_fromArray ::
  "(error + promise list) \<times> store \<Rightarrow> (error + dll) \<times> store"
where
  "await_all_fromArray r =
     (case r of
        (Inl e, s) \<Rightarrow> (Inl e, s)
      | (Inr results, s) \<Rightarrow>
          (case Promise_all results of
             Inl e \<Rightarrow> (Inl e, s)
           | Inr unwrapped \<Rightarrow>
               (case fromArray_static (dense unwrapped) s of
                  (Inl e, l', s') \<Rightarrow> (Inl e, s')
                | (Inr u, l', s') \<Rightarrow> (Inr l', s'))))"

definition asyncMap ::
  "(jsval \<Rightarrow> iter_result) \<Rightarrow> dll \<Rightarrow> store \<Rightarrow> ((error + dll) \<times> store) option"
where
  "asyncMap iteratee l s =
     map_option await_all_fromArray (asyncMap_loop iteratee (head_node l) [] s)"

definition asyncMapRight ::
  "(jsval \<Rightarrow> iter_result) \<Rightarrow> dll \<Rightarrow> store \<Rightarrow> ((error + dll) \<times> store) option"
where
  "asyncMapRight iteratee l s =
     map_option await_all_fromArray (asyncMapRight_loop iteratee (tail_node l) [] s)"

text \<open>
  \<^verbatim>\<open>asyncReduce\<close> and \<^verbatim>\<open>asyncReduceRight\<close>: the recursive \<^verbatim>\<open>stepper\<close> awaits each
  iteratee before it visits the next node.
\<close>

definition await_resolve :: "iter_result \<Rightarrow> error + jsval" where
  "await_resolve r = (case Promise_resolve r of Inl e \<Rightarrow> Inl e | Inr p \<Rightarrow> await p)"

partial_function (option) asyncReduce_stepper ::
  "(jsval \<Rightarrow> jsval \<Rightarrow> iter_result) \<Rightarrow> jsval \<Rightarrow> addr option \<Rightarrow> store
     \<Rightarrow> ((error + jsval) \<times> store) option"
where
  "asyncReduce_stepper iteratee acc node s =
     (case node of
        None \<Rightarrow> Some (Inr acc, s)
      | Some a \<Rightarrow>
          (case getData a s of (d, s') \<Rightarrow>
             (case await_resolve (iteratee d acc) of
                Inl e \<Rightarrow> Some (Inl e, s')
              | Inr acc' \<Rightarrow> asyncReduce_stepper iteratee acc' (getNext s' a) s')))"

definition asyncReduce ::
  "(jsval \<Rightarrow> jsval \<Rightarrow> iter_result) \<Rightarrow> jsval \<Rightarrow> dll \<Rightarrow> store
     \<Rightarrow> ((error + jsval) \<times> store) option"
where
  "asyncReduce iteratee accumulator l s =
     asyncReduce_stepper iteratee accumulator (head_node l) s"

partial_function (option) asyncReduceRight_stepper ::
  "(jsval \<Rightarrow> jsval \<Rightarrow> iter_result) \<Rightarrow> jsval \<Rightarrow> addr option \<Rightarrow> store
     \<Rightarrow> ((error + jsval) \<times> store) option"
where
  "asyncReduceRight_stepper iteratee acc node s =
     (case node of
        None \<Rightarrow> Some (Inr acc, s)
      | Some a \<Rightarrow>
          (case getData a s of (d, s') \<Rightarrow>
             (case await_resolve (iteratee d acc) of
                Inl e \<Rightarrow> Some (Inl e, s')
              | Inr acc' \<Rightarrow> asyncReduceRight_stepper iteratee acc' (getPrev s' a) s')))"

definition asyncReduceRight ::
  "(jsval \<Rightarrow> jsval \<Rightarrow> iter_result) \<Rightarrow> jsval \<Rightarrow> dll \<Rightarrow> store
     \<Rightarrow> ((error + jsval) \<times> store) option"
where
  "asyncReduceRight iteratee accumulator l s =
     asyncReduceRight_stepper iteratee accumulator (tail_node l) s"

section \<open>Sequences of operations\<close>

text \<open>
  The mutating operations as data, and a caller that performs them one after the
  other on one list until one of them throws. \<open>Remove\<close> takes a predicate,
  \<open>RemoveNode\<close> the node reference the caller holds (or \<^verbatim>\<open>null\<close>).
\<close>

datatype operation =
    Append jsval
  | Prepend jsval
  | InsertAfter "jsval \<Rightarrow> bool" jsval
  | InsertBefore "jsval \<Rightarrow> bool" jsval
  | Remove "jsval \<Rightarrow> bool"
  | RemoveNode "addr option"
  | RemoveHead
  | RemoveTail
  | Clear

fun apply_operation ::
  "operation \<Rightarrow> dll \<Rightarrow> store \<Rightarrow> ((error + unit) \<times> dll \<times> store) option"
where
  "apply_operation (Append d) l s = Some (append_dll d l s)"
| "apply_operation (Prepend d) l s = (case prepend d l s of (l', s') \<Rightarrow> Some (Inr (), l', s'))"
| "apply_operation (InsertAfter p d) l s = insertAfter p d l s"
| "apply_operation (InsertBefore p d) l s = insertBefore p d l s"
| "apply_operation (Remove p) l s = remove_dll p l s"
| "apply_operation (RemoveNode node) l s = Some (removeNode node l s)"
| "apply_operation RemoveHead l s = (case removeHead l s of (l', s') \<Rightarrow> Some (Inr (), l', s'))"
| "apply_operation RemoveTail l s = (case removeTail l s of (l', s') \<Rightarrow> Some (Inr (), l', s'))"
| "apply_operation Clear l s = Some (Inr (), clear l, s)"

fun run :: "operation list \<Rightarrow> dll \<Rightarrow> store \<Rightarrow> ((error + unit) \<times> dll \<times> store) option" where
  "run [] l s = Some (Inr (), l, s)"
| "run (x # xs) l s =
     (case apply_operation x l s of
        None \<Rightarrow> None
      | Some (Inl e, l', s') \<Rightarrow> Some (Inl e, l', s')
      | Some (Inr u, l', s') \<Rightarrow> run xs l' s')"

text \<open>
  A node reference is live when the node is met walking \<^verbatim>\<open>next\<close> from the head of the
  list. The references of a sequence of operations are live when every reference given
  to \<^verbatim>\<open>removeNode\<close> is \<^verbatim>\<open>null\<close> or live at the moment of the call: a reference to
  a node that was removed before is not.
\<close>

partial_function (option) is_node_loop :: "store \<Rightarrow> addr \<Rightarrow> addr option \<Rightarrow> bool option" where
  "is_node_loop s a current =
     (case current of
        None \<Rightarrow> Some False
      | Some b \<Rightarrow> if b = a then Some True else is_node_loop s a (getNext s b))"

definition is_node_of :: "addr \<Rightarrow> dll \<Rightarrow> store \<Rightarrow> bool" where
  "is_node_of a l s = (is_node_loop s a (head_node l) = Some True)"

fun live_reference :: "operation \<Rightarrow> dll \<Rightarrow> store \<Rightarrow> bool" where
  "live_reference (RemoveNode (Some a)) l s = is_node_of a l s"
| "live_reference x l s = True"

fun live_references :: "operation list \<Rightarrow> dll \<Rightarrow> store \<Rightarrow> bool" where
  "live_references [] l s = True"
| "live_references (x # xs) l s =
     (live_reference x l s \<and>
      (case apply_operation x l s of
         Some (Inr u, l', s') \<Rightarrow> live_references xs l' s'
       | Some (Inl e, l', s') \<Rightarrow> True
       | None \<Rightarrow> True))"

section \<open>Walking the chain\<close>

text \<open>
  The number of nodes met by walking \<^verbatim>\<open>next\<close> from a reference to \<^verbatim>\<open>null\<close>, and by
  walking \<^verbatim>\<open>prev\<close>. These follow the words of the specification's length invariant;
  they are not functions of the source.
\<close>

partial_function (option) walk_next :: "store \<Rightarrow> addr option \<Rightarrow> nat \<Rightarrow> nat option" where
  "walk_next s current n =
     (case current of None \<Rightarrow> Some n | Some a \<Rightarrow> walk_next s (getNext s a) (Suc n))"

partial_function (option) walk_prev :: "store \<Rightarrow> addr option \<Rightarrow> nat \<Rightarrow> nat option" where
  "walk_prev s current n =
     (case current of None \<Rightarrow> Some n | Some a \<Rightarrow> walk_prev s (getPrev s a) (Suc n))"

definition length_invariant :: "dll \<Rightarrow> store \<Rightarrow> bool" where
  "length_invariant l s =
     (0 \<le> length_dll l \<and>
      walk_next s (head_node l) 0 = Some (nat (length_dll l)) \<and>
      walk_prev s (tail_node l) 0 = Some (nat (length_dll l)) \<and>
      (length_dll l = 0) = (head_node l = None) \<and>
      (length_dll l = 0) = (tail_node l = None))"

section \<open>Well-formed lists\<close>

text \<open>
  \<open>path f p as q\<close>: following the link \<open>f\<close> from the reference \<open>p\<close> visits exactly the
  nodes \<open>as\<close>, in this order, and arrives at \<open>q\<close>.
\<close>

fun path :: "(addr \<Rightarrow> addr option) \<Rightarrow> addr option \<Rightarrow> addr list \<Rightarrow> addr option \<Rightarrow> bool" where
  "path f p [] q = (p = q)"
| "path f p (a # as) q = (p = Some a \<and> path f (f a) as q)"

text \<open>
  A list object \<open>l\<close> is well formed in the store \<open>s\<close>, with the nodes \<open>as\<close> from head to
  tail, when \<^verbatim>\<open>next\<close> leads from the head through \<open>as\<close> to \<^verbatim>\<open>null\<close>, \<^verbatim>\<open>prev\<close>
  leads from the tail through \<open>as\<close> backwards to \<^verbatim>\<open>null\<close>, the nodes are distinct
  and allocated, and the length is their number. The new list is well formed, and
  the operations keep a list well formed when they return.
\<close>

definition wf_dll :: "store \<Rightarrow> dll \<Rightarrow> addr list \<Rightarrow> bool" where
  "wf_dll s l as =
     (path (getNext s) (head_node l) as None \<and>
      path (getPrev s) (tail_node l) (rev as) None \<and>
      distinct as \<and>
      (\<forall>a \<in> set as. a < next_node s) \<and>
      length_dll l = int (length as))"

text \<open>
  Reading the payloads of the nodes \<open>as\<close> one after the other, as the loops do:
  the values \<^verbatim>\<open>getData\<close> hands out and the store afterwards.
\<close>

fun getDatas :: "addr list \<Rightarrow> store \<Rightarrow> jsval list \<times> store" where
  "getDatas [] s = ([], s)"
| "getDatas (a # as) s =
     (case getData a s of (d, s') \<Rightarrow>
        (case getDatas as s' of (ds, s'') \<Rightarrow> (d # ds, s'')))"

text \<open>The scan of \<^verbatim>\<open>findNode\<close> over the nodes \<open>as\<close>.\<close>

fun scan :: "(jsval \<Rightarrow> bool) \<Rightarrow> addr list \<Rightarrow> store \<Rightarrow> addr option \<times> store" where
  "scan predicate [] s = (None, s)"
| "scan predicate (a # as) s =
     (case getData a s of (d, s') \<Rightarrow>
        if predicate d then (Some a, s') else scan predicate as s')"

text \<open>
  The promises the iteratees of \<^verbatim>\<open>asyncMap\<close> hand back, started one after the other on
  the payloads \<open>ds\<close>; an iteratee that throws ends the pass. An invocation fails when
  it throws or returns a promise that is rejected.
\<close>

fun fails :: "iter_result \<Rightarrow> bool" where
  "fails (Throws e) = True"
| "fails (ReturnsPromise (Rejects t e)) = True"
| "fails (ReturnsPromise (Fulfills t v)) = False"
| "fails (Returns v) = False"

fun start_all :: "(jsval \<Rightarrow> iter_result) \<Rightarrow> jsval list \<Rightarrow> promise list \<Rightarrow> error + promise list" where
  "start_all iteratee [] results = Inr results"
| "start_all iteratee (d # ds) results =
     (case Promise_resolve (iteratee d) of
        Inl e \<Rightarrow> Inl e
      | Inr p \<Rightarrow> start_all iteratee ds (results @ [p]))"

text \<open>
  The iteratee \<^verbatim>\<open>(v, acc) => Promise.resolve(v)\<close>, which returns a promise of the
  payload whatever the accumulator is.
\<close>

definition promise_of_payload :: "jsval \<Rightarrow> returned \<Rightarrow> returned" where
  "promise_of_payload v acc = Pending (Fulfills 0 v)"

text \<open>The iteratee of the documentation's example of \<^verbatim>\<open>reduce\<close>, \<^verbatim>\<open>(v, acc) => acc + v\<close> on numbers.\<close>

fun sum_iteratee :: "jsval \<Rightarrow> jsval \<Rightarrow> jsval" where
  "sum_iteratee (JNum v) (JNum acc) = JNum (acc + v)"
| "sum_iteratee v acc = JUndefined"

text \<open>The same iteratee where the accumulator may be a promise object.\<close>

fun plain_sum :: "jsval \<Rightarrow> returned \<Rightarrow> returned" where
  "plain_sum v (Plain acc) = Plain (sum_iteratee v acc)"
| "plain_sum v (Pending p) = Plain JUndefined"

lemmas eval_defs =
  dense_def fromArray_static_def new_dll_def empty_store_def append_dll_def prepend_def Node_new_def
  clonePlain_def setNext_def setPrev_def getNext_def getPrev_def getData_def
  headNode_def tailNode_def head_def tail_def removeNode_def removeHead_def removeTail_def
  clear_def findNode_def remove_dll_def toArray_def

section \<open>Cloning\<close>

lemma cloneDeep_strip:
  "strip (fst (cloneDeep v n)) = strip v"
  "map strip (fst (cloneDeeps vs n)) = map strip vs"
  "map (\<lambda>kv. (fst kv, strip (snd kv))) (fst (cloneFields fs n)) = map (\<lambda>kv. (fst kv, strip (snd kv))) fs"
  by (induction v n and vs n and fs n rule: cloneDeep_cloneDeeps_cloneFields.induct)
     (auto split: prod.splits)

lemma cloneDeep_mono:
  "n \<le> snd (cloneDeep v n)"
  "n \<le> snd (cloneDeeps vs n)"
  "n \<le> snd (cloneFields fs n)"
  by (induction v n and vs n and fs n rule: cloneDeep_cloneDeeps_cloneFields.induct)
     (auto split: prod.splits)

lemma cloneDeep_idents_aux:
  "\<forall>i \<in> idents (fst (cloneDeep v n)). n \<le> i \<and> i < snd (cloneDeep v n)"
  "\<forall>x \<in> set (fst (cloneDeeps vs n)). \<forall>i \<in> idents x. n \<le> i \<and> i < snd (cloneDeeps vs n)"
  "\<forall>kv \<in> set (fst (cloneFields fs n)). \<forall>i \<in> idents (snd kv). n \<le> i \<and> i < snd (cloneFields fs n)"
proof (induction v n and vs n and fs n rule: cloneDeep_cloneDeeps_cloneFields.induct)
  case (1 i vs n)
  then show ?case using cloneDeep_mono(2)[of "Suc n" vs]
    by (fastforce split: prod.splits)
next
  case (2 i fs n)
  then show ?case using cloneDeep_mono(3)[of "Suc n" fs]
    by (fastforce split: prod.splits)
next
  case (10 v vs n)
  then show ?case
    using cloneDeep_mono(1)[of n v] cloneDeep_mono(2)[of "snd (cloneDeep v n)" vs]
    by (fastforce split: prod.splits)
next
  case (12 k v fs n)
  then show ?case
    using cloneDeep_mono(1)[of n v] cloneDeep_mono(3)[of "snd (cloneDeep v n)" fs]
    by (fastforce split: prod.splits)
qed auto

lemma cloneDeep_idents: "idents (fst (cloneDeep v n)) \<subseteq> {n ..< snd (cloneDeep v n)}"
  using cloneDeep_idents_aux(1)[of v n] by auto

lemma clonePlain_strip: "strip (fst (clonePlain v n)) = strip v"
  by (simp add: clonePlain_def cloneDeep_strip)

lemma clonePlain_mono: "n \<le> snd (clonePlain v n)"
  by (simp add: clonePlain_def cloneDeep_mono)

lemma clonePlain_idents: "idents (fst (clonePlain v n)) \<subseteq> {n ..< snd (clonePlain v n)}"
  by (cases v) (simp_all add: clonePlain_def cloneDeep_idents del: cloneDeep.simps)

section \<open>The store and paths\<close>

lemma getNext_setNext: "getNext (setNext a v s) = (getNext s)(a := v)"
  by (rule ext) (simp add: getNext_def setNext_def)

lemma getPrev_setNext: "getPrev (setNext a v s) = getPrev s"
  by (rule ext) (simp add: getPrev_def setNext_def)

lemma getNext_setPrev: "getNext (setPrev a v s) = getNext s"
  by (rule ext) (simp add: getNext_def setPrev_def)

lemma getPrev_setPrev: "getPrev (setPrev a v s) = (getPrev s)(a := v)"
  by (rule ext) (simp add: getPrev_def setPrev_def)

lemma set_link_fields:
  "next_node (setNext a v s) = next_node s" "next_obj (setNext a v s) = next_obj s"
  "next_node (setPrev a v s) = next_node s" "next_obj (setPrev a v s) = next_obj s"
  "data (nodes (setNext a v s) b) = data (nodes s b)"
  "data (nodes (setPrev a v s) b) = data (nodes s b)"
  by (simp_all add: setNext_def setPrev_def)

lemma getData_fields:
  "fst (getData a s) = fst (clonePlain (data (nodes s a)) (next_obj s))"
  "nodes (snd (getData a s)) = nodes s"
  "next_node (snd (getData a s)) = next_node s"
  "next_obj (snd (getData a s)) = snd (clonePlain (data (nodes s a)) (next_obj s))"
  "getNext (snd (getData a s)) = getNext s"
  "getPrev (snd (getData a s)) = getPrev s"
  by (auto simp: getData_def getNext_def getPrev_def split: prod.splits)

lemma Node_new_fields:
  "fst (Node_new d p n s) = next_node s"
  "next_node (snd (Node_new d p n s)) = Suc (next_node s)"
  "next_obj (snd (Node_new d p n s)) = snd (clonePlain d (next_obj s))"
  "getNext (snd (Node_new d p n s)) = (getNext s)(next_node s := n)"
  "getPrev (snd (Node_new d p n s)) = (getPrev s)(next_node s := p)"
  "data (nodes (snd (Node_new d p n s)) a) =
     (if a = next_node s then fst (clonePlain d (next_obj s)) else data (nodes s a))"
  "a \<noteq> next_node s \<Longrightarrow> nodes (snd (Node_new d p n s)) a = nodes s a"
  by (auto simp: Node_new_def getNext_def getPrev_def split: prod.splits)

lemma path_append:
  "path f p (as @ bs) q = (\<exists>r. path f p as r \<and> path f r bs q)"
  by (induction as arbitrary: p) auto

lemma path_upd: "u \<notin> set as \<Longrightarrow> path (f(u := v)) p as q = path f p as q"
  by (induction as arbitrary: p) auto

lemma path_unique: "path f p as None \<Longrightarrow> path f p bs None \<Longrightarrow> as = bs"
proof (induction as arbitrary: p bs)
  case Nil
  then show ?case by (cases bs) auto
next
  case (Cons a as)
  then show ?case by (cases bs) auto
qed

lemma getDatas_Cons:
  "getDatas (a # as) s =
     (fst (getData a s) # fst (getDatas as (snd (getData a s))),
      snd (getDatas as (snd (getData a s))))"
  by (simp split: prod.splits)

lemma getDatas_nodes: "nodes (snd (getDatas as s)) = nodes s"
  by (induction as arbitrary: s) (simp_all add: getDatas_Cons getData_fields del: getDatas.simps(2))

lemma getDatas_next_node: "next_node (snd (getDatas as s)) = next_node s"
  by (induction as arbitrary: s) (simp_all add: getDatas_Cons getData_fields del: getDatas.simps(2))

lemma getDatas_getNext: "getNext (snd (getDatas as s)) = getNext s"
  by (rule ext) (simp add: getNext_def getDatas_nodes)

lemma getDatas_getPrev: "getPrev (snd (getDatas as s)) = getPrev s"
  by (rule ext) (simp add: getPrev_def getDatas_nodes)

lemma getDatas_length: "length (fst (getDatas as s)) = length as"
  by (induction as arbitrary: s) (simp_all add: getDatas_Cons del: getDatas.simps(2))

lemma getDatas_strip:
  "map strip (fst (getDatas as s)) = map (\<lambda>a. strip (data (nodes s a))) as"
  by (induction as arbitrary: s)
     (simp_all add: getDatas_Cons getData_fields clonePlain_strip del: getDatas.simps(2))

lemma getDatas_next_obj: "next_obj s \<le> next_obj (snd (getDatas as s))"
proof (induction as arbitrary: s)
  case Nil
  show ?case by simp
next
  case (Cons a as)
  have "next_obj s \<le> next_obj (snd (getData a s))"
    by (simp add: getData_fields clonePlain_mono)
  also have "\<dots> \<le> next_obj (snd (getDatas as (snd (getData a s))))"
    by (rule Cons.IH)
  finally show ?case by (simp add: getDatas_Cons del: getDatas.simps(2))
qed

lemma getDatas_idents:
  "v \<in> set (fst (getDatas as s)) \<Longrightarrow> i \<in> idents v \<Longrightarrow>
     next_obj s \<le> i \<and> i < next_obj (snd (getDatas as s))"
proof (induction as arbitrary: s)
  case Nil
  then show ?case by simp
next
  case (Cons a as)
  let ?s1 = "snd (getData a s)"
  have le1: "next_obj s \<le> next_obj ?s1"
    by (simp add: getData_fields clonePlain_mono)
  have le2: "next_obj ?s1 \<le> next_obj (snd (getDatas as ?s1))"
    by (rule getDatas_next_obj)
  from Cons.prems(1) have "v = fst (getData a s) \<or> v \<in> set (fst (getDatas as ?s1))"
    by (simp add: getDatas_Cons del: getDatas.simps(2))
  then show ?case
  proof
    assume "v = fst (getData a s)"
    with Cons.prems(2) have "i \<in> {next_obj s ..< next_obj ?s1}"
      using clonePlain_idents[of "data (nodes s a)" "next_obj s"]
      by (auto simp: getData_fields)
    with le2 show ?thesis by (simp add: getDatas_Cons del: getDatas.simps(2))
  next
    assume "v \<in> set (fst (getDatas as ?s1))"
    from Cons.IH[OF this Cons.prems(2)] le1 show ?thesis
      by (simp add: getDatas_Cons del: getDatas.simps(2))
  qed
qed

lemma getDatas_append:
  "getDatas (as @ bs) s =
     (fst (getDatas as s) @ fst (getDatas bs (snd (getDatas as s))),
      snd (getDatas bs (snd (getDatas as s))))"
  by (induction as arbitrary: s) (simp_all add: getDatas_Cons del: getDatas.simps(2))

text \<open>The loops on a chain that ends.\<close>

lemma toArray_loop_path:
  "path (getNext s) p as None \<Longrightarrow>
     toArray_loop p acc s = Some (acc @ fst (getDatas as s), snd (getDatas as s))"
proof (induction as arbitrary: p acc s)
  case Nil
  then show ?case by (simp add: toArray_loop.simps)
next
  case (Cons a as)
  from Cons.prems have p: "p = Some a" and rest: "path (getNext (snd (getData a s))) (getNext (snd (getData a s)) a) as None"
    by (simp_all add: getData_fields)
  show ?case
    by (subst toArray_loop.simps)
       (simp add: p Cons.IH[OF rest] getDatas_Cons case_prod_beta del: getDatas.simps(2))
qed

lemma scan_Cons:
  "scan predicate (a # as) s =
     (if predicate (fst (getData a s)) then (Some a, snd (getData a s))
      else scan predicate as (snd (getData a s)))"
  by (simp add: case_prod_beta)

lemma findNode_loop_path:
  "path (getNext s) p as None \<Longrightarrow> findNode_loop predicate p s = Some (scan predicate as s)"
proof (induction as arbitrary: p s)
  case Nil
  then show ?case by (simp add: findNode_loop.simps)
next
  case (Cons a as)
  from Cons.prems have p: "p = Some a"
    and rest: "path (getNext (snd (getData a s))) (getNext (snd (getData a s)) a) as None"
    by (simp_all add: getData_fields)
  show ?case
    by (subst findNode_loop.simps)
       (simp add: p Cons.IH[OF rest] scan_Cons case_prod_beta del: scan.simps(2))
qed

lemma scan_nodes: "nodes (snd (scan predicate as s)) = nodes s"
  by (induction as arbitrary: s) (simp_all add: scan_Cons getData_fields del: scan.simps(2))

lemma scan_next_node: "next_node (snd (scan predicate as s)) = next_node s"
  by (induction as arbitrary: s) (simp_all add: scan_Cons getData_fields del: scan.simps(2))

lemma scan_found: "fst (scan predicate as s) = Some a \<Longrightarrow> a \<in> set as"
  by (induction as arbitrary: s) (auto simp: scan_Cons simp del: scan.simps(2) split: if_splits)

lemma scan_None:
  "(fst (scan predicate as s) = None) = (\<not> (\<exists>v \<in> set (fst (getDatas as s)). predicate v))"
  by (induction as arbitrary: s)
     (simp_all add: scan_Cons getDatas_Cons del: scan.simps(2) getDatas.simps(2))

lemma scan_miss:
  "fst (scan predicate as s) = None \<Longrightarrow> snd (scan predicate as s) = snd (getDatas as s)"
  by (induction as arbitrary: s)
     (simp_all add: scan_Cons getDatas_Cons del: scan.simps(2) getDatas.simps(2) split: if_splits)

lemma map_loop_path:
  "path (getNext s) p as None \<Longrightarrow>
     map_loop f p acc s = Some (acc @ map f (fst (getDatas as s)), snd (getDatas as s))"
proof (induction as arbitrary: p acc s)
  case Nil
  then show ?case by (simp add: map_loop.simps)
next
  case (Cons a as)
  from Cons.prems have p: "p = Some a"
    and rest: "path (getNext (snd (getData a s))) (getNext (snd (getData a s)) a) as None"
    by (simp_all add: getData_fields)
  show ?case
    by (subst map_loop.simps)
       (simp add: p Cons.IH[OF rest] getDatas_Cons case_prod_beta del: getDatas.simps(2))
qed

lemma mapRight_loop_path:
  "path (getPrev s) p as None \<Longrightarrow>
     mapRight_loop f p acc s = Some (acc @ map f (fst (getDatas as s)), snd (getDatas as s))"
proof (induction as arbitrary: p acc s)
  case Nil
  then show ?case by (simp add: mapRight_loop.simps)
next
  case (Cons a as)
  from Cons.prems have p: "p = Some a"
    and rest: "path (getPrev (snd (getData a s))) (getPrev (snd (getData a s)) a) as None"
    by (simp_all add: getData_fields)
  show ?case
    by (subst mapRight_loop.simps)
       (simp add: p Cons.IH[OF rest] getDatas_Cons case_prod_beta del: getDatas.simps(2))
qed

lemma reduce_loop_path:
  "path (getNext s) p as None \<Longrightarrow>
     reduce_loop f acc p s =
       Some (foldl (\<lambda>acc d. f d acc) acc (fst (getDatas as s)), snd (getDatas as s))"
proof (induction as arbitrary: p acc s)
  case Nil
  then show ?case by (simp add: reduce_loop.simps)
next
  case (Cons a as)
  from Cons.prems have p: "p = Some a"
    and rest: "path (getNext (snd (getData a s))) (getNext (snd (getData a s)) a) as None"
    by (simp_all add: getData_fields)
  show ?case
    by (subst reduce_loop.simps)
       (simp add: p Cons.IH[OF rest] getDatas_Cons case_prod_beta del: getDatas.simps(2))
qed

lemma reduceRight_loop_path:
  "path (getPrev s) p as None \<Longrightarrow>
     reduceRight_loop f acc p s =
       Some (foldl (\<lambda>acc d. f d acc) acc (fst (getDatas as s)), snd (getDatas as s))"
proof (induction as arbitrary: p acc s)
  case Nil
  then show ?case by (simp add: reduceRight_loop.simps)
next
  case (Cons a as)
  from Cons.prems have p: "p = Some a"
    and rest: "path (getPrev (snd (getData a s))) (getPrev (snd (getData a s)) a) as None"
    by (simp_all add: getData_fields)
  show ?case
    by (subst reduceRight_loop.simps)
       (simp add: p Cons.IH[OF rest] getDatas_Cons case_prod_beta del: getDatas.simps(2))
qed

lemma foldl_Plain:
  "\<forall>d v. it d (Plain v) = Plain (f d v) \<Longrightarrow>
     foldl (\<lambda>a d. it d a) (Plain acc) ds = Plain (foldl (\<lambda>a d. f d a) acc ds)"
  by (induction ds arbitrary: acc) simp_all

lemma asyncReduce_stepper_path:
  assumes g: "\<And>d acc. await_resolve (g d acc) = Inr (f d acc)"
  shows "path (getNext s) p as None \<Longrightarrow>
     asyncReduce_stepper g acc p s =
       Some (Inr (foldl (\<lambda>acc d. f d acc) acc (fst (getDatas as s))), snd (getDatas as s))"
proof (induction as arbitrary: p acc s)
  case Nil
  then show ?case by (simp add: asyncReduce_stepper.simps)
next
  case (Cons a as)
  from Cons.prems have p: "p = Some a"
    and rest: "path (getNext (snd (getData a s))) (getNext (snd (getData a s)) a) as None"
    by (simp_all add: getData_fields)
  show ?case
    by (subst asyncReduce_stepper.simps)
       (simp add: p g Cons.IH[OF rest] getDatas_Cons case_prod_beta del: getDatas.simps(2))
qed

lemma asyncReduceRight_stepper_path:
  assumes g: "\<And>d acc. await_resolve (g d acc) = Inr (f d acc)"
  shows "path (getPrev s) p as None \<Longrightarrow>
     asyncReduceRight_stepper g acc p s =
       Some (Inr (foldl (\<lambda>acc d. f d acc) acc (fst (getDatas as s))), snd (getDatas as s))"
proof (induction as arbitrary: p acc s)
  case Nil
  then show ?case by (simp add: asyncReduceRight_stepper.simps)
next
  case (Cons a as)
  from Cons.prems have p: "p = Some a"
    and rest: "path (getPrev (snd (getData a s))) (getPrev (snd (getData a s)) a) as None"
    by (simp_all add: getData_fields)
  show ?case
    by (subst asyncReduceRight_stepper.simps)
       (simp add: p g Cons.IH[OF rest] getDatas_Cons case_prod_beta del: getDatas.simps(2))
qed

text \<open>Well-formed lists\<close>

lemma wf_dll_cong:
  "nodes s' = nodes s \<Longrightarrow> next_node s' = next_node s \<Longrightarrow> wf_dll s' l as = wf_dll s l as"
proof -
  assume a: "nodes s' = nodes s" "next_node s' = next_node s"
  have "getNext s' = getNext s" "getPrev s' = getPrev s"
    by (rule ext, simp add: getNext_def getPrev_def a)+
  then show ?thesis by (simp add: wf_dll_def a)
qed

lemma wf_dll_new: "wf_dll s new_dll []"
  by (simp add: wf_dll_def new_dll_def)

lemma wf_dll_Nil: "wf_dll s l [] \<Longrightarrow> head_node l = None \<and> tail_node l = None"
  by (simp add: wf_dll_def)

lemma wf_dll_head: "wf_dll s l (a # as) \<Longrightarrow> head_node l = Some a"
  by (simp add: wf_dll_def)

lemma wf_dll_tail: "wf_dll s l (as @ [a]) \<Longrightarrow> tail_node l = Some a"
  by (simp add: wf_dll_def)

lemma wf_dll_unique: "wf_dll s l as \<Longrightarrow> wf_dll s l bs \<Longrightarrow> as = bs"
  by (auto simp: wf_dll_def dest: path_unique)

lemma append_dll_Nil:
  assumes "wf_dll s l []"
  shows "append_dll d l s =
     (Inr (),
      l\<lparr>head_node := Some (next_node s), tail_node := Some (next_node s),
        length_dll := length_dll l + 1\<rparr>,
      snd (Node_new d None None s))"
  using wf_dll_Nil[OF assms]
  by (simp add: append_dll_def case_prod_beta Node_new_fields)

lemma append_dll_snoc:
  assumes "wf_dll s l (bs @ [t])"
  shows "append_dll d l s =
     (Inr (),
      l\<lparr>tail_node := Some (next_node s), length_dll := length_dll l + 1\<rparr>,
      setNext t (Some (next_node s)) (snd (Node_new d (Some t) None s)))"
proof -
  have t: "tail_node l = Some t" using assms by (rule wf_dll_tail)
  have "head_node l \<noteq> None" using assms by (cases bs) (auto simp: wf_dll_def)
  then obtain h where h: "head_node l = Some h" by auto
  show ?thesis by (simp add: append_dll_def case_prod_beta Node_new_fields t h)
qed

lemma append_dll_wf:
  assumes "wf_dll s l as"
  shows "wf_dll (snd (snd (append_dll d l s))) (fst (snd (append_dll d l s))) (as @ [next_node s])"
proof (cases as rule: rev_cases)
  case Nil
  with assms show ?thesis
    by (simp add: append_dll_Nil wf_dll_def Node_new_fields)
next
  case (snoc bs t)
  with assms have wf: "wf_dll s l (bs @ [t])" by simp
  from wf have fresh: "next_node s \<notin> set bs" "next_node s \<noteq> t" "t \<notin> set bs"
    by (auto simp: wf_dll_def)
  from wf fresh show ?thesis
    unfolding snoc
    by (auto simp: append_dll_snoc[OF wf] wf_dll_def Node_new_fields getNext_setNext getPrev_setNext
        set_link_fields path_append path_upd)
qed

lemma append_dll_ok:
  assumes "wf_dll s l as"
  shows "fst (append_dll d l s) = Inr ()"
proof (cases as rule: rev_cases)
  case Nil
  with assms show ?thesis by (simp add: append_dll_Nil)
next
  case (snoc bs t)
  with assms show ?thesis by (simp add: append_dll_snoc)
qed

lemma append_dll_fields:
  assumes "wf_dll s l as"
  shows "next_node (snd (snd (append_dll d l s))) = Suc (next_node s)"
    and "next_obj (snd (snd (append_dll d l s))) = snd (clonePlain d (next_obj s))"
    and "data (nodes (snd (snd (append_dll d l s))) a) =
           (if a = next_node s then fst (clonePlain d (next_obj s)) else data (nodes s a))"
    and "length_dll (fst (snd (append_dll d l s))) = length_dll l + 1"
    and "a \<notin> set as \<Longrightarrow> a \<noteq> next_node s \<Longrightarrow> nodes (snd (snd (append_dll d l s))) a = nodes s a"
proof -
  show "next_node (snd (snd (append_dll d l s))) = Suc (next_node s)"
    using assms by (cases as rule: rev_cases)
      (simp_all add: append_dll_Nil append_dll_snoc Node_new_fields set_link_fields)
  show "next_obj (snd (snd (append_dll d l s))) = snd (clonePlain d (next_obj s))"
    using assms by (cases as rule: rev_cases)
      (simp_all add: append_dll_Nil append_dll_snoc Node_new_fields set_link_fields)
  show "data (nodes (snd (snd (append_dll d l s))) a) =
           (if a = next_node s then fst (clonePlain d (next_obj s)) else data (nodes s a))"
    using assms by (cases as rule: rev_cases)
      (simp_all add: append_dll_Nil append_dll_snoc Node_new_fields set_link_fields)
  show "length_dll (fst (snd (append_dll d l s))) = length_dll l + 1"
    using assms by (cases as rule: rev_cases)
      (simp_all add: append_dll_Nil append_dll_snoc)
  show "a \<notin> set as \<Longrightarrow> a \<noteq> next_node s \<Longrightarrow> nodes (snd (snd (append_dll d l s))) a = nodes s a"
    using assms by (cases as rule: rev_cases)
      (simp_all add: append_dll_Nil append_dll_snoc Node_new_fields setNext_def)
qed

text \<open>fromArray on a well-formed list\<close>

lemma present_dense: "present (dense vs) = vs"
  by (induction vs) (simp_all add: dense_def)

lemma present_no_holes: "None \<notin> set arr \<Longrightarrow> dense (present arr) = arr"
  by (induction arr rule: present.induct) (simp_all add: dense_def)

lemma present_length: "length (present arr) \<le> length arr"
  by (induction arr rule: present.induct) simp_all

lemma present_length_no_holes: "None \<notin> set arr \<Longrightarrow> length (present arr) = length arr"
  by (induction arr rule: present.induct) simp_all

lemma fromArray_present: "fromArray arr l s = fromArray (dense (present arr)) l s"
  by (induction arr l s rule: fromArray.induct) (auto simp: dense_def split: prod.splits sum.splits)

lemma fromArray_Cons:
  "wf_dll s l as \<Longrightarrow>
     fromArray (Some v # vs) l s =
       fromArray vs (fst (snd (append_dll v l s))) (snd (snd (append_dll v l s)))"
  using append_dll_ok[of s l as v]
  by (cases "append_dll v l s") (auto split: sum.splits)

lemma fromArray_dense_wf:
  "wf_dll s l as \<Longrightarrow>
     fst (fromArray (dense vs) l s) = Inr () \<and>
     wf_dll (snd (snd (fromArray (dense vs) l s))) (fst (snd (fromArray (dense vs) l s)))
       (as @ [next_node s ..< next_node s + length vs]) \<and>
     next_node (snd (snd (fromArray (dense vs) l s))) = next_node s + length vs \<and>
     length_dll (fst (snd (fromArray (dense vs) l s))) = length_dll l + int (length vs)"
proof (induction vs arbitrary: l s as)
  case Nil
  then show ?case by (simp add: dense_def)
next
  case (Cons v vs)
  let ?l1 = "fst (snd (append_dll v l s))" and ?s1 = "snd (snd (append_dll v l s))"
  have wf1: "wf_dll ?s1 ?l1 (as @ [next_node s])"
    by (rule append_dll_wf[OF Cons.prems])
  have n1: "next_node ?s1 = Suc (next_node s)" and len1: "length_dll ?l1 = length_dll l + 1"
    by (rule append_dll_fields[OF Cons.prems])+
  have up: "[next_node s ..< Suc (next_node s + length vs)] =
      next_node s # [Suc (next_node s) ..< Suc (next_node s + length vs)]"
    by (rule upt_conv_Cons) simp
  have d: "dense (v # vs) = Some v # dense vs" by (simp add: dense_def)
  from Cons.IH[OF wf1] show ?case
    by (simp add: d fromArray_Cons[OF Cons.prems] n1 len1 up del: fromArray.simps upt_Suc)
qed

lemma fromArray_dense_data:
  "wf_dll s l as \<Longrightarrow>
     map (\<lambda>a. strip (data (nodes (snd (snd (fromArray (dense vs) l s))) a)))
         [next_node s ..< next_node s + length vs]
       = map strip vs \<and>
     (\<forall>a < next_node s. data (nodes (snd (snd (fromArray (dense vs) l s))) a) = data (nodes s a))"
proof (induction vs arbitrary: l s as)
  case Nil
  then show ?case by (simp add: dense_def)
next
  case (Cons v vs)
  let ?l1 = "fst (snd (append_dll v l s))" and ?s1 = "snd (snd (append_dll v l s))"
  have wf1: "wf_dll ?s1 ?l1 (as @ [next_node s])"
    by (rule append_dll_wf[OF Cons.prems])
  have n1: "next_node ?s1 = Suc (next_node s)"
    by (rule append_dll_fields[OF Cons.prems])
  have d1: "\<And>a. data (nodes ?s1 a) =
           (if a = next_node s then fst (clonePlain v (next_obj s)) else data (nodes s a))"
    by (rule append_dll_fields[OF Cons.prems])
  have up: "[next_node s ..< Suc (next_node s + length vs)] =
      next_node s # [Suc (next_node s) ..< Suc (next_node s + length vs)]"
    by (rule upt_conv_Cons) simp
  have d: "dense (v # vs) = Some v # dense vs" by (simp add: dense_def)
  from Cons.IH[OF wf1] show ?case
    by (simp add: d fromArray_Cons[OF Cons.prems] n1 d1 up clonePlain_strip
        del: fromArray.simps upt_Suc)
qed

lemma fromArray_dense_frame:
  "wf_dll s l as \<Longrightarrow> a < next_node s \<Longrightarrow> a \<notin> set as \<Longrightarrow>
     nodes (snd (snd (fromArray (dense vs) l s))) a = nodes s a"
proof (induction vs arbitrary: l s as)
  case Nil
  then show ?case by (simp add: dense_def)
next
  case (Cons v vs)
  let ?l1 = "fst (snd (append_dll v l s))" and ?s1 = "snd (snd (append_dll v l s))"
  have wf1: "wf_dll ?s1 ?l1 (as @ [next_node s])"
    by (rule append_dll_wf[OF Cons.prems(1)])
  have n1: "next_node ?s1 = Suc (next_node s)"
    by (rule append_dll_fields[OF Cons.prems(1)])
  have d: "dense (v # vs) = Some v # dense vs" by (simp add: dense_def)
  have "nodes ?s1 a = nodes s a"
    using Cons.prems by (intro append_dll_fields(5)) auto
  moreover have "nodes (snd (snd (fromArray (dense vs) ?l1 ?s1))) a = nodes ?s1 a"
    using Cons.prems by (intro Cons.IH[OF wf1]) (auto simp: n1)
  ultimately show ?case
    by (simp add: d fromArray_Cons[OF Cons.prems(1)] del: fromArray.simps)
qed

lemma fromArray_dense_next_obj:
  "wf_dll s l as \<Longrightarrow> next_obj s \<le> next_obj (snd (snd (fromArray (dense vs) l s)))"
proof (induction vs arbitrary: l s as)
  case Nil
  then show ?case by (simp add: dense_def)
next
  case (Cons v vs)
  let ?l1 = "fst (snd (append_dll v l s))" and ?s1 = "snd (snd (append_dll v l s))"
  have wf1: "wf_dll ?s1 ?l1 (as @ [next_node s])"
    by (rule append_dll_wf[OF Cons.prems(1)])
  have d: "dense (v # vs) = Some v # dense vs" by (simp add: dense_def)
  have "next_obj s \<le> next_obj ?s1"
    by (simp add: append_dll_fields[OF Cons.prems] clonePlain_mono)
  also have "\<dots> \<le> next_obj (snd (snd (fromArray (dense vs) ?l1 ?s1)))"
    by (rule Cons.IH[OF wf1])
  finally show ?case
    by (simp add: d fromArray_Cons[OF Cons.prems(1)] del: fromArray.simps)
qed

lemma fromArray_wf:
  "wf_dll s l as \<Longrightarrow>
     fst (fromArray arr l s) = Inr () \<and>
     wf_dll (snd (snd (fromArray arr l s))) (fst (snd (fromArray arr l s)))
       (as @ [next_node s ..< next_node s + length (present arr)]) \<and>
     next_node (snd (snd (fromArray arr l s))) = next_node s + length (present arr) \<and>
     length_dll (fst (snd (fromArray arr l s))) = length_dll l + int (length (present arr))"
  using fromArray_dense_wf[of s l as "present arr"] by (simp add: fromArray_present[of arr])

lemma fromArray_data:
  "wf_dll s l as \<Longrightarrow>
     map (\<lambda>a. strip (data (nodes (snd (snd (fromArray arr l s))) a)))
         [next_node s ..< next_node s + length (present arr)]
       = map strip (present arr) \<and>
     (\<forall>a < next_node s. data (nodes (snd (snd (fromArray arr l s))) a) = data (nodes s a))"
  using fromArray_dense_data[of s l as "present arr"] by (simp add: fromArray_present[of arr])

lemma fromArray_frame:
  "wf_dll s l as \<Longrightarrow> a < next_node s \<Longrightarrow> a \<notin> set as \<Longrightarrow>
     nodes (snd (snd (fromArray arr l s))) a = nodes s a"
  using fromArray_dense_frame[of s l as a "present arr"] by (simp add: fromArray_present[of arr])

lemma fromArray_next_obj:
  "wf_dll s l as \<Longrightarrow> next_obj s \<le> next_obj (snd (snd (fromArray arr l s)))"
  using fromArray_dense_next_obj[of s l as "present arr"] by (simp add: fromArray_present[of arr])

lemma toArray_wf:
  "wf_dll s l as \<Longrightarrow> toArray l s = Some (getDatas as s)"
  using toArray_loop_path[of s "head_node l" as "[]"]
  by (simp add: toArray_def wf_dll_def)

lemma struct_eq_map: "map strip xs = map strip ys \<Longrightarrow> list_all2 struct_eq xs ys"
proof (induction xs arbitrary: ys)
  case Nil
  then show ?case by simp
next
  case (Cons x xs)
  then show ?case by (cases ys) (auto simp: struct_eq_def)
qed

lemma path_cong: "\<forall>a \<in> set as. f a = g a \<Longrightarrow> path f p as q = path g p as q"
  by (induction as arbitrary: p) auto

lemma wf_dll_frame:
  assumes "wf_dll s l as" and "\<forall>a \<in> set as. nodes s' a = nodes s a"
    and "next_node s \<le> next_node s'"
  shows "wf_dll s' l as"
proof -
  have n: "path (getNext s') (head_node l) as None = path (getNext s) (head_node l) as None"
    using assms(2) by (intro path_cong) (simp add: getNext_def)
  have p: "path (getPrev s') (tail_node l) (rev as) None = path (getPrev s) (tail_node l) (rev as) None"
    using assms(2) by (intro path_cong) (simp add: getPrev_def)
  from assms(1,3) show ?thesis
    by (auto simp: wf_dll_def n p)
qed

lemma fromArray_static_wf:
  "fst (fromArray_static arr s) = Inr () \<and>
   wf_dll (snd (snd (fromArray_static arr s))) (fst (snd (fromArray_static arr s)))
     [next_node s ..< next_node s + length (present arr)] \<and>
   next_node (snd (snd (fromArray_static arr s))) = next_node s + length (present arr) \<and>
   length_dll (fst (snd (fromArray_static arr s))) = int (length (present arr))"
  using fromArray_wf[where s=s and arr=arr and l=new_dll and as="[]", OF wf_dll_new]
  by (simp add: fromArray_static_def new_dll_def)

lemma fromArray_static_toArray:
  "\<exists>R s2. toArray (fst (snd (fromArray_static arr s))) (snd (snd (fromArray_static arr s))) = Some (R, s2)
     \<and> map strip R = map strip (present arr)
     \<and> (\<forall>v \<in> set R. \<forall>i \<in> idents v. next_obj s \<le> i)"
proof -
  let ?l = "fst (snd (fromArray_static arr s))" and ?s = "snd (snd (fromArray_static arr s))"
  let ?bs = "[next_node s ..< next_node s + length (present arr)]"
  have wf: "wf_dll ?s ?l ?bs" using fromArray_static_wf[of arr s] by simp
  have t: "toArray ?l ?s = Some (fst (getDatas ?bs ?s), snd (getDatas ?bs ?s))"
    by (simp add: toArray_wf[OF wf])
  have "map strip (fst (getDatas ?bs ?s)) = map strip (present arr)"
    using fromArray_data[where s=s and arr=arr and l=new_dll and as="[]", OF wf_dll_new]
    by (simp add: getDatas_strip fromArray_static_def)
  moreover have "next_obj s \<le> next_obj ?s"
    using fromArray_next_obj[where s=s and arr=arr and l=new_dll and as="[]", OF wf_dll_new]
    by (simp add: fromArray_static_def)
  then have "\<forall>v \<in> set (fst (getDatas ?bs ?s)). \<forall>i \<in> idents v. next_obj s \<le> i"
    using getDatas_idents[of _ ?bs ?s] by fastforce
  ultimately show ?thesis using t by blast
qed

section \<open>The operations keep a list well formed\<close>

lemma walk_next_path:
  "path (getNext s) p as None \<Longrightarrow> walk_next s p n = Some (n + length as)"
proof (induction as arbitrary: p n)
  case Nil
  then show ?case by (simp add: walk_next.simps)
next
  case (Cons a as)
  then show ?case by (subst walk_next.simps) simp
qed

lemma walk_prev_path:
  "path (getPrev s) p as None \<Longrightarrow> walk_prev s p n = Some (n + length as)"
proof (induction as arbitrary: p n)
  case Nil
  then show ?case by (simp add: walk_prev.simps)
next
  case (Cons a as)
  then show ?case by (subst walk_prev.simps) simp
qed

lemma wf_dll_length_invariant:
  assumes "wf_dll s l as"
  shows "length_invariant l s"
proof -
  have n: "path (getNext s) (head_node l) as None" and p: "path (getPrev s) (tail_node l) (rev as) None"
    and len: "length_dll l = int (length as)"
    using assms by (simp_all add: wf_dll_def)
  have h: "(head_node l = None) = (as = [])" using n by (cases as) auto
  have t: "(tail_node l = None) = (as = [])" using p by (cases "rev as") auto
  show ?thesis
    using walk_next_path[OF n, of 0] walk_prev_path[OF p, of 0]
    by (simp add: length_invariant_def len h t)
qed

lemma prepend_wf:
  assumes "wf_dll s l as"
  shows "wf_dll (snd (prepend d l s)) (fst (prepend d l s)) (next_node s # as)"
proof (cases as)
  case Nil
  with assms show ?thesis
    by (simp add: prepend_def wf_dll_def case_prod_beta Node_new_fields)
next
  case (Cons h hs)
  with assms have fresh: "next_node s \<notin> set as" "next_node s \<noteq> h" "h \<notin> set hs"
    by (auto simp: wf_dll_def)
  from assms fresh show ?thesis
    unfolding Cons
    by (auto simp: prepend_def wf_dll_def case_prod_beta Node_new_fields getNext_setPrev
        getPrev_setPrev set_link_fields path_append path_upd)
qed

lemma removeHead_wf:
  assumes "wf_dll s l (a # as)"
  shows "wf_dll (snd (removeHead l s)) (fst (removeHead l s)) as"
proof (cases as)
  case Nil
  with assms show ?thesis
    by (simp add: removeHead_def wf_dll_def)
next
  case (Cons b bs)
  with assms show ?thesis
    by (auto simp: removeHead_def wf_dll_def getNext_setPrev getPrev_setPrev set_link_fields
        path_append path_upd)
qed

lemma removeHead_empty: "wf_dll s l [] \<Longrightarrow> removeHead l s = (l, s)"
  by (simp add: removeHead_def wf_dll_def)

lemma removeTail_wf:
  assumes "wf_dll s l (as @ [a])"
  shows "wf_dll (snd (removeTail l s)) (fst (removeTail l s)) as"
proof (cases as rule: rev_cases)
  case Nil
  with assms show ?thesis
    by (simp add: removeTail_def wf_dll_def)
next
  case (snoc bs b)
  with assms show ?thesis
    by (auto simp: removeTail_def wf_dll_def getNext_setNext getPrev_setNext set_link_fields
        path_append path_upd)
qed

lemma removeTail_empty: "wf_dll s l [] \<Longrightarrow> removeTail l s = (l, s)"
  by (simp add: removeTail_def wf_dll_def)

lemma clear_wf: "wf_dll s (clear l) []"
  by (simp add: clear_def wf_dll_def)

lemma insertAfterNode_wf:
  assumes "wf_dll s l (as @ a # bs)"
  shows "fst (insertAfterNode (Some a) d l s) = Inr () \<and>
         wf_dll (snd (snd (insertAfterNode (Some a) d l s)))
                (fst (snd (insertAfterNode (Some a) d l s)))
                (as @ a # next_node s # bs)"
proof (cases bs)
  case Nil
  with assms have wf: "wf_dll s l ((as @ [a]) @ [])" by simp
  have nx: "getNext s a = None" using assms Nil by (auto simp: wf_dll_def path_append)
  show ?thesis
    using append_dll_ok[OF assms, of d] append_dll_wf[OF assms, of d] Nil
    by (simp add: insertAfterNode_def nx)
next
  case (Cons b cs)
  from assms have fresh: "next_node s \<notin> set as" "next_node s \<noteq> a" "next_node s \<notin> set bs"
    and dist: "a \<notin> set as" "a \<notin> set bs" "distinct as" "distinct bs" "set as \<inter> set bs = {}"
    by (auto simp: wf_dll_def)
  from assms Cons have nx: "getNext s a = Some b" by (auto simp: wf_dll_def path_append)
  from assms fresh dist nx show ?thesis
    unfolding Cons
    by (auto simp: insertAfterNode_def wf_dll_def case_prod_beta Node_new_fields
        getNext_setNext getPrev_setNext getNext_setPrev getPrev_setPrev set_link_fields
        path_append path_upd ball_Un intro: less_SucI)
qed

lemma insertBeforeNode_wf:
  assumes "wf_dll s l (as @ a # bs)"
  shows "fst (insertBeforeNode (Some a) d l s) = Inr () \<and>
         wf_dll (snd (snd (insertBeforeNode (Some a) d l s)))
                (fst (snd (insertBeforeNode (Some a) d l s)))
                (as @ next_node s # a # bs)"
proof (cases as rule: rev_cases)
  case Nil
  have pv: "getPrev s a = None" using assms Nil by (auto simp: wf_dll_def path_append)
  show ?thesis
    using prepend_wf[OF assms, of d] Nil
    by (simp add: insertBeforeNode_def pv case_prod_beta)
next
  case (snoc cs c)
  from assms have fresh: "next_node s \<notin> set as" "next_node s \<noteq> a" "next_node s \<notin> set bs"
    and dist: "a \<notin> set as" "a \<notin> set bs" "distinct as" "distinct bs" "set as \<inter> set bs = {}"
    by (auto simp: wf_dll_def)
  from assms snoc have pv: "getPrev s a = Some c" by (auto simp: wf_dll_def path_append)
  from assms fresh dist pv show ?thesis
    unfolding snoc
    by (auto simp: insertBeforeNode_def wf_dll_def case_prod_beta Node_new_fields
        getNext_setNext getPrev_setNext getNext_setPrev getPrev_setPrev set_link_fields
        path_append path_upd ball_Un intro: less_SucI)
qed

lemma removeNode_head_wf:
  assumes "wf_dll s l (a # as)"
  shows "fst (removeNode (Some a) l s) = Inr () \<and>
         wf_dll (snd (snd (removeNode (Some a) l s))) (fst (snd (removeNode (Some a) l s))) as"
proof -
  have pv: "getPrev s a = None" using assms by (auto simp: wf_dll_def path_append)
  show ?thesis using removeHead_wf[OF assms]
    by (simp add: removeNode_def pv case_prod_beta)
qed

lemma removeNode_inner_wf:
  assumes "wf_dll s l (as @ p # a # n # bs)"
  shows "fst (removeNode (Some a) l s) = Inr () \<and>
         wf_dll (snd (snd (removeNode (Some a) l s))) (fst (snd (removeNode (Some a) l s)))
                (as @ p # n # bs)"
proof -
  from assms have pv: "getPrev s a = Some p" and nx: "getNext s a = Some n"
    by (auto simp: wf_dll_def path_append)
  from assms have dist: "p \<noteq> a" "a \<noteq> n" "p \<noteq> n" "p \<notin> set as" "a \<notin> set as" "n \<notin> set as"
    "p \<notin> set bs" "a \<notin> set bs" "n \<notin> set bs"
    by (auto simp: wf_dll_def)
  from assms dist pv nx show ?thesis
    by (auto simp: removeNode_def wf_dll_def Let_def
        getNext_setNext getPrev_setNext getNext_setPrev getPrev_setPrev set_link_fields
        path_append path_upd)
qed

lemma removeNode_tail_TypeError:
  assumes "wf_dll s l (as @ [p, a])"
  shows "fst (removeNode (Some a) l s) = Inl TypeError \<and>
         fst (snd (removeNode (Some a) l s)) = l \<and>
         snd (snd (removeNode (Some a) l s)) = setNext p None s \<and>
         \<not> length_invariant l (setNext p None s)"
proof -
  from assms have pv: "getPrev s a = Some p" and nx: "getNext s a = None"
    by (auto simp: wf_dll_def path_append)
  from assms have dist: "p \<noteq> a" "p \<notin> set as" "a \<notin> set as"
    by (auto simp: wf_dll_def)
  have r: "removeNode (Some a) l s = (Inl TypeError, l, setNext p None s)"
    using dist by (simp add: removeNode_def pv nx Let_def getNext_setNext)
  have "path (getNext (setNext p None s)) (head_node l) (as @ [p]) None"
    using assms dist by (auto simp: wf_dll_def getNext_setNext path_append path_upd)
  then have "walk_next (setNext p None s) (head_node l) 0 = Some (length (as @ [p]))"
    using walk_next_path[of "setNext p None s" "head_node l" "as @ [p]" 0] by simp
  moreover have "nat (length_dll l) = length as + 2" using assms by (simp add: wf_dll_def)
  ultimately have "\<not> length_invariant l (setNext p None s)"
    by (simp add: length_invariant_def)
  with r show ?thesis by simp
qed

section \<open>Insertion relative to a node of the list\<close>

lemma insertAfterNode_ok:
  assumes "wf_dll s l as" and "a \<in> set as"
  shows "fst (insertAfterNode (Some a) d l s) = Inr ()"
proof (cases "getNext s a")
  case None
  then show ?thesis by (simp add: insertAfterNode_def append_dll_ok[OF assms(1)])
next
  case (Some nx)
  from assms have "a \<noteq> next_node s" by (auto simp: wf_dll_def)
  with Some show ?thesis
    by (simp add: insertAfterNode_def case_prod_beta Node_new_fields)
qed

lemma insertBeforeNode_ok:
  assumes "wf_dll s l as" and "a \<in> set as"
  shows "fst (insertBeforeNode (Some a) d l s) = Inr ()"
proof (cases "getPrev s a")
  case None
  then show ?thesis by (simp add: insertBeforeNode_def case_prod_beta)
next
  case (Some pv)
  from assms have "a \<noteq> next_node s" by (auto simp: wf_dll_def)
  with Some show ?thesis
    by (simp add: insertBeforeNode_def case_prod_beta Node_new_fields)
qed

lemma findNode_wf: "wf_dll s l as \<Longrightarrow> findNode predicate l s = Some (scan predicate as s)"
  by (simp add: findNode_def wf_dll_def findNode_loop_path)

section \<open>Sequences of operations that do not throw\<close>

lemma removeNode_found_wf:
  assumes "wf_dll s l as" and "a \<in> set as"
  shows "fst (removeNode (Some a) l s) = Inr () \<longrightarrow>
         (\<exists>bs. wf_dll (snd (snd (removeNode (Some a) l s))) (fst (snd (removeNode (Some a) l s))) bs)"
proof -
  from assms(2) obtain xs ys where as: "as = xs @ a # ys" by (auto simp: in_set_conv_decomp)
  show ?thesis
  proof (cases xs rule: rev_cases)
    case Nil
    with assms(1) as show ?thesis using removeNode_head_wf[of s l a ys] by auto
  next
    case (snoc zs p)
    show ?thesis
    proof (cases ys)
      case Nil
      with assms(1) as snoc show ?thesis using removeNode_tail_TypeError[of s l zs p a] by simp
    next
      case (Cons n ws)
      with assms(1) as snoc show ?thesis using removeNode_inner_wf[of s l zs p a n ws] by auto
    qed
  qed
qed

lemma is_node_loop_path:
  "path (getNext s) p as None \<Longrightarrow> is_node_loop s a p = Some (a \<in> set as)"
proof (induction as arbitrary: p)
  case Nil
  then show ?case by (simp add: is_node_loop.simps)
next
  case (Cons b bs)
  then show ?case by (subst is_node_loop.simps) auto
qed

lemma is_node_of_wf: "wf_dll s l as \<Longrightarrow> is_node_of a l s = (a \<in> set as)"
  using is_node_loop_path[of s "head_node l" as a]
  by (simp add: is_node_of_def wf_dll_def)

lemma apply_operation_wf:
  assumes "wf_dll s l as" and "live_reference x l s"
  shows "\<exists>r l' s'. apply_operation x l s = Some (r, l', s') \<and>
           (r = Inr () \<longrightarrow> (\<exists>bs. wf_dll s' l' bs))"
proof (cases x)
  case (Append d)
  then show ?thesis
    using append_dll_wf[OF assms(1), of d] by (cases "append_dll d l s") auto
next
  case (Prepend d)
  then show ?thesis
    using prepend_wf[OF assms(1), of d] by (cases "prepend d l s") auto
next
  case (InsertAfter p d)
  let ?node = "fst (scan p as s)" and ?s' = "snd (scan p as s)"
  have wf': "wf_dll ?s' l as"
    using assms(1) by (simp add: wf_dll_cong[of ?s' s] scan_nodes scan_next_node)
  show ?thesis
  proof (cases ?node)
    case None
    then show ?thesis
      by (simp add: InsertAfter insertAfter_def findNode_wf[OF assms(1)] case_prod_beta)
  next
    case (Some a)
    then have "a \<in> set as" by (rule scan_found)
    then obtain xs ys where as: "as = xs @ a # ys" by (auto simp: in_set_conv_decomp)
    from insertAfterNode_wf[of ?s' l xs a ys d] wf' as Some show ?thesis
      by (cases "insertAfterNode (Some a) d l ?s'")
         (auto simp: InsertAfter insertAfter_def findNode_wf[OF assms(1)] case_prod_beta)
  qed
next
  case (InsertBefore p d)
  let ?node = "fst (scan p as s)" and ?s' = "snd (scan p as s)"
  have wf': "wf_dll ?s' l as"
    using assms(1) by (simp add: wf_dll_cong[of ?s' s] scan_nodes scan_next_node)
  show ?thesis
  proof (cases ?node)
    case None
    then show ?thesis
      by (simp add: InsertBefore insertBefore_def findNode_wf[OF assms(1)] case_prod_beta)
  next
    case (Some a)
    then have "a \<in> set as" by (rule scan_found)
    then obtain xs ys where as: "as = xs @ a # ys" by (auto simp: in_set_conv_decomp)
    from insertBeforeNode_wf[of ?s' l xs a ys d] wf' as Some show ?thesis
      by (cases "insertBeforeNode (Some a) d l ?s'")
         (auto simp: InsertBefore insertBefore_def findNode_wf[OF assms(1)] case_prod_beta)
  qed
next
  case (Remove p)
  let ?node = "fst (scan p as s)" and ?s' = "snd (scan p as s)"
  have wf': "wf_dll ?s' l as"
    using assms(1) by (simp add: wf_dll_cong[of ?s' s] scan_nodes scan_next_node)
  show ?thesis
  proof (cases ?node)
    case None
    with wf' show ?thesis
      by (auto simp: Remove remove_dll_def findNode_wf[OF assms(1)] case_prod_beta removeNode_def)
  next
    case (Some a)
    then have "a \<in> set as" by (rule scan_found)
    from removeNode_found_wf[OF wf' this] Some show ?thesis
      by (cases "removeNode (Some a) l ?s'")
         (auto simp: Remove remove_dll_def findNode_wf[OF assms(1)] case_prod_beta)
  qed
next
  case (RemoveNode node)
  show ?thesis
  proof (cases node)
    case None
    with assms(1) show ?thesis
      by (auto simp: RemoveNode removeNode_def)
  next
    case (Some a)
    with assms(2) have "a \<in> set as"
      by (simp add: RemoveNode is_node_of_wf[OF assms(1)])
    from removeNode_found_wf[OF assms(1) this] Some show ?thesis
      by (cases "removeNode (Some a) l s") (auto simp: RemoveNode)
  qed
next
  case RemoveHead
  show ?thesis
  proof (cases as)
    case Nil
    with assms(1) show ?thesis by (auto simp: RemoveHead removeHead_empty)
  next
    case (Cons a bs)
    with assms(1) show ?thesis
      using removeHead_wf[of s l a bs] by (cases "removeHead l s") (auto simp: RemoveHead)
  qed
next
  case RemoveTail
  show ?thesis
  proof (cases as rule: rev_cases)
    case Nil
    with assms(1) show ?thesis by (auto simp: RemoveTail removeTail_empty)
  next
    case (snoc bs a)
    with assms(1) show ?thesis
      using removeTail_wf[of s l bs a] by (cases "removeTail l s") (auto simp: RemoveTail)
  qed
next
  case Clear
  then show ?thesis using clear_wf[of s l] by auto
qed

lemma run_wf:
  "wf_dll s l as \<Longrightarrow> live_references xs l s \<Longrightarrow>
     \<exists>r l' s'. run xs l s = Some (r, l', s') \<and> (r = Inr () \<longrightarrow> (\<exists>bs. wf_dll s' l' bs))"
proof (induction xs arbitrary: s l as)
  case Nil
  then show ?case by auto
next
  case (Cons x xs)
  from Cons.prems(2) have lx: "live_reference x l s" by simp
  from apply_operation_wf[OF Cons.prems(1) lx] obtain r l' s' where
    a: "apply_operation x l s = Some (r, l', s')" and w: "r = Inr () \<longrightarrow> (\<exists>bs. wf_dll s' l' bs)"
    by blast
  show ?case
  proof (cases r)
    case (Inl e)
    with a show ?thesis by simp
  next
    case (Inr u)
    with w obtain bs where wf': "wf_dll s' l' bs" by auto
    from Cons.prems(2) a Inr have "live_references xs l' s'" by simp
    from Cons.IH[OF wf' this] a Inr show ?thesis by simp
  qed
qed

text \<open>
  As long as no operation throws and the node references given to \<^verbatim>\<open>removeNode\<close>
  are live, the length invariant holds.
\<close>

lemma length_invariant_unless_thrown:
  "live_references xs new_dll s \<Longrightarrow>
     \<exists>r l s'. run xs new_dll s = Some (r, l, s') \<and> (r = Inr () \<longrightarrow> length_invariant l s')"
  using run_wf[where s=s and l=new_dll and as="[]" and xs=xs, OF wf_dll_new]
    wf_dll_length_invariant by blast

text \<open>
  A reference that is not live: after \<^verbatim>\<open>removeNode\<close> has removed the second of three
  nodes, a second call with the same reference does not throw and decrements the
  length again, to 1, while two nodes remain.
\<close>

lemma removeNode_stale_reference:
  "(case run [Append (JNum 1), Append (JNum 2), Append (JNum 3),
              RemoveNode (Some 1), RemoveNode (Some 1)] new_dll empty_store of
      None \<Rightarrow> False
    | Some (r, l, s) \<Rightarrow>
        r = Inr () \<and> length_dll l = 1 \<and> walk_next s (head_node l) 0 = Some 2) \<and>
   \<not> live_references [Append (JNum 1), Append (JNum 2), Append (JNum 3),
                       RemoveNode (Some 1), RemoveNode (Some 1)] new_dll empty_store"
  by (simp add: eval_defs is_node_of_def is_node_loop.simps walk_next.simps)

section \<open>Promises\<close>

lemma first_rejection_None:
  "(first_rejection ps = None) = (\<forall>p \<in> set ps. \<exists>t v. p = Fulfills t v)"
  by (induction ps rule: first_rejection.induct) (auto split: option.splits)

lemma fails_resolve:
  "fails r = (case Promise_resolve r of Inl e \<Rightarrow> True | Inr p \<Rightarrow> \<not> (\<exists>t v. p = Fulfills t v))"
  by (cases r rule: fails.cases) auto

lemma start_all_outcome:
  "(case start_all iteratee ds results of
      Inl e \<Rightarrow> True
    | Inr ps \<Rightarrow> first_rejection ps \<noteq> None)
   = ((\<exists>d \<in> set ds. fails (iteratee d)) \<or> first_rejection results \<noteq> None)"
proof (induction ds arbitrary: results)
  case Nil
  show ?case by simp
next
  case (Cons d ds)
  show ?case
  proof (cases "Promise_resolve (iteratee d)")
    case (Inl e)
    then show ?thesis by (simp add: fails_resolve)
  next
    case (Inr p)
    then show ?thesis
      using Cons.IH[of "results @ [p]"]
      by (auto simp: fails_resolve first_rejection_None)
  qed
qed

lemma asyncMap_loop_path:
  "path (getNext s) p as None \<Longrightarrow>
     \<exists>s'. asyncMap_loop iteratee p results s =
            Some (start_all iteratee (fst (getDatas as s)) results, s')"
proof (induction as arbitrary: p results s)
  case Nil
  then show ?case by (simp add: asyncMap_loop.simps)
next
  case (Cons a as)
  from Cons.prems have p: "p = Some a"
    and rest: "path (getNext (snd (getData a s))) (getNext (snd (getData a s)) a) as None"
    by (simp_all add: getData_fields)
  show ?case
  proof (cases "Promise_resolve (iteratee (fst (getData a s)))")
    case (Inl e)
    then show ?thesis
      by (subst asyncMap_loop.simps)
         (simp add: p getDatas_Cons case_prod_beta del: getDatas.simps(2))
  next
    case (Inr q)
    from Cons.IH[OF rest, of "results @ [q]"] Inr show ?thesis
      by (subst asyncMap_loop.simps)
         (simp add: p getDatas_Cons case_prod_beta del: getDatas.simps(2))
  qed
qed

lemma asyncMapRight_loop_path:
  "path (getPrev s) p as None \<Longrightarrow>
     \<exists>s'. asyncMapRight_loop iteratee p results s =
            Some (start_all iteratee (fst (getDatas as s)) results, s')"
proof (induction as arbitrary: p results s)
  case Nil
  then show ?case by (simp add: asyncMapRight_loop.simps)
next
  case (Cons a as)
  from Cons.prems have p: "p = Some a"
    and rest: "path (getPrev (snd (getData a s))) (getPrev (snd (getData a s)) a) as None"
    by (simp_all add: getData_fields)
  show ?case
  proof (cases "Promise_resolve (iteratee (fst (getData a s)))")
    case (Inl e)
    then show ?thesis
      by (subst asyncMapRight_loop.simps)
         (simp add: p getDatas_Cons case_prod_beta del: getDatas.simps(2))
  next
    case (Inr q)
    from Cons.IH[OF rest, of "results @ [q]"] Inr show ?thesis
      by (subst asyncMapRight_loop.simps)
         (simp add: p getDatas_Cons case_prod_beta del: getDatas.simps(2))
  qed
qed

lemma await_all_fromArray_outcome:
  "isl (fst (await_all_fromArray (r, s))) =
     (case r of Inl e \<Rightarrow> True | Inr ps \<Rightarrow> first_rejection ps \<noteq> None)"
proof (cases r)
  case (Inl e)
  then show ?thesis by (simp add: await_all_fromArray_def)
next
  case (Inr ps)
  show ?thesis
  proof (cases "first_rejection ps")
    case None
    then show ?thesis
      using fromArray_static_wf[of "dense (fulfilled_values ps)" s]
      by (cases "fromArray_static (dense (fulfilled_values ps)) s")
         (auto simp: await_all_fromArray_def Promise_all_def Inr split: sum.splits)
  next
    case (Some te)
    then show ?thesis
      by (simp add: await_all_fromArray_def Promise_all_def Inr case_prod_beta)
  qed
qed

section \<open>An example list\<close>

lemma example_list:
  "fromArray_static (dense [JNum 1, JNum 2, JNum 3]) empty_store =
     (Inr (), fst (snd (fromArray_static (dense [JNum 1, JNum 2, JNum 3]) empty_store)),
      snd (snd (fromArray_static (dense [JNum 1, JNum 2, JNum 3]) empty_store)))"
  "wf_dll (snd (snd (fromArray_static (dense [JNum 1, JNum 2, JNum 3]) empty_store)))
     (fst (snd (fromArray_static (dense [JNum 1, JNum 2, JNum 3]) empty_store))) [0, Suc 0, Suc (Suc 0)]"
  using fromArray_static_wf[of "dense [JNum 1, JNum 2, JNum 3]" empty_store]
  by (simp_all add: prod_eq_iff empty_store_def present_dense)

lemma example_list_payloads:
  "getDatas [0, Suc 0, Suc (Suc 0)] (snd (snd (fromArray_static (dense [JNum 1, JNum 2, JNum 3]) empty_store))) =
     ([JNum 1, JNum 2, JNum 3], snd (snd (fromArray_static (dense [JNum 1, JNum 2, JNum 3]) empty_store)))"
  "getDatas [Suc (Suc 0), Suc 0, 0] (snd (snd (fromArray_static (dense [JNum 1, JNum 2, JNum 3]) empty_store))) =
     ([JNum 3, JNum 2, JNum 1], snd (snd (fromArray_static (dense [JNum 1, JNum 2, JNum 3]) empty_store)))"
  by (simp_all add: eval_defs)

section \<open>Removing the last node by reference\<close>

text \<open>
  Claim C1 says that \<^verbatim>\<open>removeNode\<close> removes every non-head node of a list, the tail
  node of a list of two or more elements included, decrements the length and returns
  the list. On the list built from \<open>[1, 2]\<close> the call on the tail node throws a
  \<^verbatim>\<open>TypeError\<close> instead: the predecessor's \<^verbatim>\<open>next\<close> has been set to \<^verbatim>\<open>null\<close>, but
  the list's tail reference still points at the node and the length is still 2. (The
  same happens on the last node of every well-formed list of two or more nodes,
  \<open>removeNode_tail_TypeError\<close>; the head and the inner nodes are removed as the claim
  says, \<open>removeNode_head_wf\<close> and \<open>removeNode_inner_wf\<close>.)
\<close>

theorem removeNode_tail_throws:
  "(case fromArray_static (dense [JNum 1, JNum 2]) empty_store of
      (r, l, s) \<Rightarrow>
        r = Inr () \<and> length_dll l = 2 \<and> head_node l = Some 0 \<and> tailNode l = Some 1 \<and>
        (case removeNode (tailNode l) l s of
           (r', l', s') \<Rightarrow>
             r' = Inl TypeError \<and> length_dll l' = 2 \<and> tail_node l' = Some 1 \<and>
             getNext s' 0 = None \<and> toArray l' s' = Some ([JNum 1], s')))"
  by (simp add: eval_defs toArray_loop.simps)

section \<open>The length invariant after a removal that throws\<close>

text \<open>
  Claim C2 says that after any sequence of the mutating operations the length equals
  the number of nodes met walking \<^verbatim>\<open>next\<close> from the head and the number met walking
  \<^verbatim>\<open>prev\<close> from the tail. After \<open>append 1\<close>, \<open>append 2\<close> and \<open>remove (= 2)\<close>, the last
  of which throws inside \<^verbatim>\<open>removeNode\<close>, the length is 2, one node is met walking
  \<^verbatim>\<open>next\<close> from the head and two are met walking \<^verbatim>\<open>prev\<close> from the tail. (As long
  as no operation throws and every node reference given to \<^verbatim>\<open>removeNode\<close> is live,
  the invariant holds: \<open>length_invariant_unless_thrown\<close>.)
\<close>

theorem length_invariant_broken_by_remove:
  "(case run [Append (JNum 1), Append (JNum 2), Remove (\<lambda>v. v = JNum 2)] new_dll empty_store of
      None \<Rightarrow> False
    | Some (r, l, s) \<Rightarrow>
        r = Inl TypeError \<and> length_dll l = 2 \<and>
        walk_next s (head_node l) 0 = Some 1 \<and>
        walk_prev s (tail_node l) 0 = Some 2 \<and>
        \<not> length_invariant l s)"
  by (simp add: eval_defs length_invariant_def findNode_loop.simps
      walk_next.simps walk_prev.simps)

section \<open>Round trip through the list\<close>

text \<open>
  Claim C3, amended. \<^verbatim>\<open>arr.forEach\<close> skips the holes of the array, so the list built by
  \<^verbatim>\<open>fromArray\<close> holds the elements that are present in \<open>S\<close>. For every sequence \<open>S\<close>
  (whose values exist already, so that their identities lie below the allocation
  counter), \<^verbatim>\<open>toArray\<close> of that list returns a sequence that is structurally equal,
  element by element, to the sequence of the elements present in \<open>S\<close>, and none of whose
  composite values shares an identity with a value of \<open>S\<close>. When \<open>S\<close> has no hole this
  sequence is \<open>S\<close> itself, with the same length.
\<close>

theorem toArray_fromArray:
  assumes "\<forall>v \<in> set (present S). \<forall>i \<in> idents v. i < next_obj s"
  shows "\<exists>l s1 R s2.
     fromArray_static S s = (Inr (), l, s1) \<and> toArray l s1 = Some (R, s2) \<and>
     list_all2 struct_eq R (present S) \<and>
     (\<Union>v \<in> set R. idents v) \<inter> (\<Union>v \<in> set (present S). idents v) = {} \<and>
     (None \<notin> set S \<longrightarrow> S = dense (present S) \<and> length R = length S)"
proof -
  obtain R s2 where t: "toArray (fst (snd (fromArray_static S s))) (snd (snd (fromArray_static S s))) = Some (R, s2)"
    and st: "map strip R = map strip (present S)"
    and fr: "\<forall>v \<in> set R. \<forall>i \<in> idents v. next_obj s \<le> i"
    using fromArray_static_toArray[of S s] by blast
  have ok: "fromArray_static S s = (Inr (), fst (snd (fromArray_static S s)), snd (snd (fromArray_static S s)))"
    using fromArray_static_wf[of S s] by (simp add: prod_eq_iff)
  have dis: "(\<Union>v \<in> set R. idents v) \<inter> (\<Union>v \<in> set (present S). idents v) = {}"
    using fr assms by fastforce
  have eq: "list_all2 struct_eq R (present S)" using st by (rule struct_eq_map)
  have len: "length R = length (present S)" using eq by (rule list_all2_lengthD)
  have nh: "None \<notin> set S \<longrightarrow> S = dense (present S) \<and> length R = length S"
    using len by (simp add: present_no_holes present_length_no_holes)
  from ok t eq dis nh show ?thesis by blast
qed

theorem toArray_fromArray_witness:
  "\<exists>l s1 R s2.
     fromArray_static (dense [JNum 7, JObj 0 [(''a'', JArr 1 [JStr ''x''])]]) (empty_store\<lparr>next_obj := 2\<rparr>)
       = (Inr (), l, s1) \<and>
     toArray l s1 = Some (R, s2) \<and>
     list_all2 struct_eq R [JNum 7, JObj 0 [(''a'', JArr 1 [JStr ''x''])]] \<and>
     (\<Union>v \<in> set R. idents v) \<inter> (\<Union>v \<in> set [JNum 7, JObj 0 [(''a'', JArr 1 [JStr ''x''])]]. idents v) = {} \<and>
     length R = 2"
  using toArray_fromArray[of "dense [JNum 7, JObj 0 [(''a'', JArr 1 [JStr ''x''])]]" "empty_store\<lparr>next_obj := 2\<rparr>"]
  by (simp add: empty_store_def present_dense) (auto simp: dense_def)

text \<open>
  The claim as stated, for every sequence: from \<open>[1, , 3]\<close>, of length 3, \<^verbatim>\<open>toArray\<close>
  returns \<open>[1, 3]\<close>, of length 2.
\<close>

theorem toArray_fromArray_holes_counterexample:
  "fst (fromArray_static [Some (JNum 1), None, Some (JNum 3)] empty_store) = Inr () \<and>
   map_option fst
     (toArray (fst (snd (fromArray_static [Some (JNum 1), None, Some (JNum 3)] empty_store)))
              (snd (snd (fromArray_static [Some (JNum 1), None, Some (JNum 3)] empty_store))))
     = Some [JNum 1, JNum 3] \<and>
   length [JNum 1, JNum 3] \<noteq> length [Some (JNum 1), None, Some (JNum 3)]"
  by (simp add: eval_defs toArray_loop.simps)

section \<open>Bulk construction\<close>

text \<open>
  Claim C4, amended. The instance form of \<^verbatim>\<open>fromArray\<close> appends to the list it is
  called on, and both forms skip the holes of the input: on a well-formed list the
  instance form returns normally, the length grows by the number of elements present
  in the input, and \<^verbatim>\<open>toArray\<close> then gives the former elements followed by those of
  the input, in order (up to cloning). The static form, which starts from a new list,
  gives a list whose length is the number of elements present in the input and whose
  elements are those. For an input with no hole that number is the length of the
  input. An empty input leaves the list as it is, and the static form then gives the
  empty list.
\<close>

theorem fromArray_appends:
  assumes "wf_dll s l as"
  shows "(\<exists>l' s' old s1 new s2.
            fromArray arr l s = (Inr (), l', s') \<and>
            length_dll l' = length_dll l + int (length (present arr)) \<and>
            toArray l s = Some (old, s1) \<and>
            toArray l' s' = Some (new, s2) \<and>
            list_all2 struct_eq new (old @ present arr)) \<and>
         (\<exists>l0 s0 R s3.
            fromArray_static arr s = (Inr (), l0, s0) \<and>
            length_dll l0 = int (length (present arr)) \<and>
            toArray l0 s0 = Some (R, s3) \<and>
            list_all2 struct_eq R (present arr)) \<and>
         (None \<notin> set arr \<longrightarrow> arr = dense (present arr) \<and> length (present arr) = length arr) \<and>
         fromArray [] l s = (Inr (), l, s) \<and>
         fromArray_static [] s = (Inr (), new_dll, s)"
proof -
  let ?l = "fst (snd (fromArray arr l s))" and ?s = "snd (snd (fromArray arr l s))"
  let ?bs = "[next_node s ..< next_node s + length (present arr)]"
  have f: "fst (fromArray arr l s) = Inr ()" and wf: "wf_dll ?s ?l (as @ ?bs)"
    and len: "length_dll ?l = length_dll l + int (length (present arr))"
    using fromArray_wf[OF assms, of arr] by simp_all
  have ok: "fromArray arr l s = (Inr (), ?l, ?s)"
    using f by (simp add: prod_eq_iff)
  have old: "toArray l s = Some (fst (getDatas as s), snd (getDatas as s))"
    by (simp add: toArray_wf[OF assms])
  have new: "toArray ?l ?s = Some (fst (getDatas (as @ ?bs) ?s), snd (getDatas (as @ ?bs) ?s))"
    by (simp add: toArray_wf[OF wf])
  have lt: "\<forall>a \<in> set as. a < next_node s" using assms by (simp add: wf_dll_def)
  have d: "map (\<lambda>a. strip (data (nodes ?s a))) ?bs = map strip (present arr)"
    and keep: "\<forall>a < next_node s. data (nodes ?s a) = data (nodes s a)"
    using fromArray_data[OF assms, of arr] by simp_all
  have "map strip (fst (getDatas (as @ ?bs) ?s)) = map strip (fst (getDatas as s) @ present arr)"
    using d keep lt by (simp add: getDatas_strip)
  then have eq: "list_all2 struct_eq (fst (getDatas (as @ ?bs) ?s)) (fst (getDatas as s) @ present arr)"
    by (rule struct_eq_map)
  have inst: "\<exists>l' s' old s1 new s2.
            fromArray arr l s = (Inr (), l', s') \<and>
            length_dll l' = length_dll l + int (length (present arr)) \<and>
            toArray l s = Some (old, s1) \<and>
            toArray l' s' = Some (new, s2) \<and>
            list_all2 struct_eq new (old @ present arr)"
    using ok len old new eq by blast
  let ?l0 = "fst (snd (fromArray_static arr s))" and ?s0 = "snd (snd (fromArray_static arr s))"
  obtain R s3 where t: "toArray ?l0 ?s0 = Some (R, s3)" and st: "map strip R = map strip (present arr)"
    using fromArray_static_toArray[of arr s] by blast
  have ok0: "fromArray_static arr s = (Inr (), ?l0, ?s0)"
    and len0: "length_dll ?l0 = int (length (present arr))"
    using fromArray_static_wf[of arr s] by (simp_all add: prod_eq_iff)
  have stat: "\<exists>l0 s0 R s3.
            fromArray_static arr s = (Inr (), l0, s0) \<and>
            length_dll l0 = int (length (present arr)) \<and>
            toArray l0 s0 = Some (R, s3) \<and>
            list_all2 struct_eq R (present arr)"
    using ok0 len0 t struct_eq_map[OF st] by blast
  have nh: "None \<notin> set arr \<longrightarrow> arr = dense (present arr) \<and> length (present arr) = length arr"
    by (simp add: present_no_holes present_length_no_holes)
  from inst stat nh show ?thesis by (simp add: fromArray_static_def)
qed

theorem fromArray_appends_witness:
  "(\<exists>l' s' old s1 new s2.
     fromArray (dense [JNum 2, JNum 3])
         \<lparr>head_node = Some 0, tail_node = Some 0, length_dll = 1\<rparr>
         \<lparr>nodes = (\<lambda>a. \<lparr>data = JNum 1, next = None, prev = None\<rparr>), next_node = 1, next_obj = 0\<rparr>
       = (Inr (), l', s') \<and>
     length_dll l' = 3 \<and>
     toArray \<lparr>head_node = Some 0, tail_node = Some 0, length_dll = 1\<rparr>
         \<lparr>nodes = (\<lambda>a. \<lparr>data = JNum 1, next = None, prev = None\<rparr>), next_node = 1, next_obj = 0\<rparr>
       = Some (old, s1) \<and>
     toArray l' s' = Some (new, s2) \<and>
     list_all2 struct_eq new (old @ [JNum 2, JNum 3]))"
proof -
  let ?l = "\<lparr>head_node = Some 0, tail_node = Some 0, length_dll = 1\<rparr>"
  let ?s = "\<lparr>nodes = (\<lambda>a. \<lparr>data = JNum 1, next = None, prev = None\<rparr>), next_node = 1, next_obj = 0\<rparr>"
  have wf: "wf_dll ?s ?l [0]"
    by (simp add: wf_dll_def getNext_def getPrev_def)
  from fromArray_appends[OF wf, of "dense [JNum 2, JNum 3]"] show ?thesis
    by (simp add: present_dense del: fromArray.simps)
qed

text \<open>
  The claim as stated: called with \<open>[2]\<close> on the list built from \<open>[1]\<close>, the instance
  form gives length 2, not the length of the input; called with the empty sequence,
  the list still has its element; and the static form gives length 2 from
  \<open>[1, , 3]\<close>, whose length is 3.
\<close>

theorem fromArray_instance_counterexample:
  "fst (fromArray (dense [JNum 1]) new_dll empty_store) = Inr () \<and>
   fst (fromArray (dense [JNum 2]) (fst (snd (fromArray (dense [JNum 1]) new_dll empty_store)))
          (snd (snd (fromArray (dense [JNum 1]) new_dll empty_store)))) = Inr () \<and>
   length_dll (fst (snd (fromArray (dense [JNum 2]) (fst (snd (fromArray (dense [JNum 1]) new_dll empty_store)))
          (snd (snd (fromArray (dense [JNum 1]) new_dll empty_store)))))) = 2 \<and>
   length_dll (fst (snd (fromArray (dense [JNum 2]) (fst (snd (fromArray (dense [JNum 1]) new_dll empty_store)))
          (snd (snd (fromArray (dense [JNum 1]) new_dll empty_store))))))
     \<noteq> int (length (dense [JNum 2])) \<and>
   length_dll (fst (snd (fromArray [] (fst (snd (fromArray (dense [JNum 1]) new_dll empty_store)))
          (snd (snd (fromArray (dense [JNum 1]) new_dll empty_store)))))) = 1 \<and>
   length_dll (fst (snd (fromArray_static [Some (JNum 1), None, Some (JNum 3)] empty_store))) = 2 \<and>
   length_dll (fst (snd (fromArray_static [Some (JNum 1), None, Some (JNum 3)] empty_store)))
     \<noteq> int (length [Some (JNum 1), None, Some (JNum 3)])"
  by (simp add: eval_defs)

section \<open>Errors of the insertions, silence of the removals\<close>

text \<open>
  Claim C5: on a well-formed list, whose payloads read from head to tail are \<open>vs\<close>,
  \<^verbatim>\<open>insertAfter\<close> and \<^verbatim>\<open>insertBefore\<close> return normally when some payload satisfies
  the predicate and throw the not-found error when none does; \<^verbatim>\<open>remove\<close> with a
  predicate no payload satisfies returns normally and leaves the list object and every
  node as they were; \<^verbatim>\<open>removeNode\<close> of \<^verbatim>\<open>null\<close> returns normally and changes nothing.
\<close>

theorem insert_throws_remove_does_not:
  assumes "wf_dll s l as"
  shows "\<exists>vs s1.
     toArray l s = Some (vs, s1) \<and>
     (\<exists>r. insertAfter p d l s = Some r \<and>
           fst r = (if \<exists>v \<in> set vs. p v then Inr () else Inl NotFound)) \<and>
     (\<exists>r. insertBefore p d l s = Some r \<and>
           fst r = (if \<exists>v \<in> set vs. p v then Inr () else Inl NotFound)) \<and>
     ((\<forall>v \<in> set vs. \<not> p v) \<longrightarrow>
        remove_dll p l s = Some (Inr (), l, s1) \<and> nodes s1 = nodes s \<and>
        next_node s1 = next_node s) \<and>
     removeNode None l s = (Inr (), l, s)"
proof -
  let ?vs = "fst (getDatas as s)" and ?s1 = "snd (getDatas as s)"
  let ?node = "fst (scan p as s)" and ?s' = "snd (scan p as s)"
  have t: "toArray l s = Some (?vs, ?s1)" by (simp add: toArray_wf[OF assms])
  have f: "findNode p l s = Some (?node, ?s')" by (simp add: findNode_wf[OF assms])
  have wf': "wf_dll ?s' l as"
    using assms(1) by (simp add: wf_dll_cong[of ?s' s] scan_nodes scan_next_node)
  have A: "fst (case ?node of None \<Rightarrow> (Inl NotFound, l, ?s') | Some a \<Rightarrow> insertAfterNode (Some a) d l ?s')
         = (if \<exists>v \<in> set ?vs. p v then Inr () else Inl NotFound)"
  proof (cases ?node)
    case None
    then show ?thesis using scan_None[of p as s] by simp
  next
    case (Some a)
    then have "a \<in> set as" by (rule scan_found)
    with Some show ?thesis
      using scan_None[of p as s] insertAfterNode_ok[OF wf', of a d] by simp
  qed
  have B: "fst (case ?node of None \<Rightarrow> (Inl NotFound, l, ?s') | Some a \<Rightarrow> insertBeforeNode (Some a) d l ?s')
         = (if \<exists>v \<in> set ?vs. p v then Inr () else Inl NotFound)"
  proof (cases ?node)
    case None
    then show ?thesis using scan_None[of p as s] by simp
  next
    case (Some a)
    then have "a \<in> set as" by (rule scan_found)
    with Some show ?thesis
      using scan_None[of p as s] insertBeforeNode_ok[OF wf', of a d] by simp
  qed
  have C: "(\<forall>v \<in> set ?vs. \<not> p v) \<longrightarrow>
        remove_dll p l s = Some (Inr (), l, ?s1) \<and> nodes ?s1 = nodes s \<and>
        next_node ?s1 = next_node s"
  proof
    assume "\<forall>v \<in> set ?vs. \<not> p v"
    then have n: "?node = None" using scan_None[of p as s] by simp
    then have "?s' = ?s1" by (rule scan_miss)
    with n show "remove_dll p l s = Some (Inr (), l, ?s1) \<and> nodes ?s1 = nodes s \<and>
        next_node ?s1 = next_node s"
      by (simp add: remove_dll_def f removeNode_def getDatas_nodes getDatas_next_node)
  qed
  have D: "removeNode None l s = (Inr (), l, s)" by (simp add: removeNode_def)
  have IA: "insertAfter p d l s =
      Some (case ?node of None \<Rightarrow> (Inl NotFound, l, ?s') | Some a \<Rightarrow> insertAfterNode (Some a) d l ?s')"
    by (simp add: insertAfter_def f case_prod_beta)
  have IB: "insertBefore p d l s =
      Some (case ?node of None \<Rightarrow> (Inl NotFound, l, ?s') | Some a \<Rightarrow> insertBeforeNode (Some a) d l ?s')"
    by (simp add: insertBefore_def f case_prod_beta)
  show ?thesis
    apply (rule exI[of _ ?vs])
    apply (rule exI[of _ ?s1])
    using t IA A IB B C D by blast
qed

theorem insert_throws_remove_does_not_witness:
  "\<exists>l s r1 r2 r3.
     fromArray_static (dense [JNum 1, JNum 2, JNum 3]) empty_store = (Inr (), l, s) \<and>
     insertAfter (\<lambda>v. v = JNum 7) (JNum 8) l s = Some r1 \<and> fst r1 = Inl NotFound \<and>
     insertBefore (\<lambda>v. v = JNum 7) (JNum 8) l s = Some r2 \<and> fst r2 = Inl NotFound \<and>
     remove_dll (\<lambda>v. v = JNum 7) l s = Some (Inr (), l, s) \<and>
     insertAfter (\<lambda>v. v = JNum 2) (JNum 8) l s = Some r3 \<and> fst r3 = Inr ()"
proof -
  let ?l = "fst (snd (fromArray_static (dense [JNum 1, JNum 2, JNum 3]) empty_store))"
  let ?s = "snd (snd (fromArray_static (dense [JNum 1, JNum 2, JNum 3]) empty_store))"
  have t: "toArray ?l ?s = Some ([JNum 1, JNum 2, JNum 3], ?s)"
    by (simp add: toArray_wf[OF example_list(2)] example_list_payloads del: getDatas.simps)
  from insert_throws_remove_does_not[OF example_list(2), of "\<lambda>v. v = JNum 7" "JNum 8"] t
  obtain r1 r2 where
    "insertAfter (\<lambda>v. v = JNum 7) (JNum 8) ?l ?s = Some r1" "fst r1 = Inl NotFound"
    "insertBefore (\<lambda>v. v = JNum 7) (JNum 8) ?l ?s = Some r2" "fst r2 = Inl NotFound"
    "remove_dll (\<lambda>v. v = JNum 7) ?l ?s = Some (Inr (), ?l, ?s)"
    by auto
  moreover
  from insert_throws_remove_does_not[OF example_list(2), of "\<lambda>v. v = JNum 2" "JNum 8"] t
  obtain r3 where "insertAfter (\<lambda>v. v = JNum 2) (JNum 8) ?l ?s = Some r3" "fst r3 = Inr ()"
    by auto
  ultimately show ?thesis using example_list(1) by blast
qed

section \<open>Failure of an asynchronous map\<close>

text \<open>
  Claim C6: on a well-formed list, \<^verbatim>\<open>asyncMap\<close> and \<^verbatim>\<open>asyncMapRight\<close> end, and the
  promise they return is rejected exactly when the iteratee fails on one of the payloads
  read (head to tail, or tail to head); it is then rejected as a whole, with no list.
\<close>

theorem asyncMap_fails_as_a_whole:
  assumes "wf_dll s l as"
  shows "(\<exists>r s'. asyncMap iteratee l s = Some (r, s') \<and>
            isl r = (\<exists>v \<in> set (fst (getDatas as s)). fails (iteratee v))) \<and>
         (\<exists>r s'. asyncMapRight iteratee l s = Some (r, s') \<and>
            isl r = (\<exists>v \<in> set (fst (getDatas (rev as) s)). fails (iteratee v)))"
proof -
  have n: "path (getNext s) (head_node l) as None" and p: "path (getPrev s) (tail_node l) (rev as) None"
    using assms(1) by (simp_all add: wf_dll_def)
  obtain s1 where l1: "asyncMap_loop iteratee (head_node l) [] s =
      Some (start_all iteratee (fst (getDatas as s)) [], s1)"
    using asyncMap_loop_path[OF n, of iteratee "[]"] by blast
  obtain s2 where l2: "asyncMapRight_loop iteratee (tail_node l) [] s =
      Some (start_all iteratee (fst (getDatas (rev as) s)) [], s2)"
    using asyncMapRight_loop_path[OF p, of iteratee "[]"] by blast
  have a: "isl (fst (await_all_fromArray (start_all iteratee (fst (getDatas as s)) [], s1)))
      = (\<exists>v \<in> set (fst (getDatas as s)). fails (iteratee v))"
    using start_all_outcome[of iteratee "fst (getDatas as s)" "[]"]
    by (simp add: await_all_fromArray_outcome)
  have b: "isl (fst (await_all_fromArray (start_all iteratee (fst (getDatas (rev as) s)) [], s2)))
      = (\<exists>v \<in> set (fst (getDatas (rev as) s)). fails (iteratee v))"
    using start_all_outcome[of iteratee "fst (getDatas (rev as) s)" "[]"]
    by (simp add: await_all_fromArray_outcome)
  have A: "\<exists>r s'. asyncMap iteratee l s = Some (r, s') \<and>
            isl r = (\<exists>v \<in> set (fst (getDatas as s)). fails (iteratee v))"
    using a by (simp add: asyncMap_def l1) (metis prod.collapse)
  have B: "\<exists>r s'. asyncMapRight iteratee l s = Some (r, s') \<and>
            isl r = (\<exists>v \<in> set (fst (getDatas (rev as) s)). fails (iteratee v))"
    using b by (simp add: asyncMapRight_def l2) (metis prod.collapse)
  from A B show ?thesis by blast
qed

theorem asyncMap_fails_as_a_whole_witness:
  "\<exists>l s e1 s1 e2 s2.
     fromArray_static (dense [JNum 1, JNum 2, JNum 3]) empty_store = (Inr (), l, s) \<and>
     asyncMap (\<lambda>v. if v = JNum 2 then ReturnsPromise (Rejects 9 (Error ''no''))
                    else ReturnsPromise (Fulfills 1 v)) l s = Some (Inl e1, s1) \<and>
     asyncMapRight (\<lambda>v. if v = JNum 2 then ReturnsPromise (Rejects 9 (Error ''no''))
                    else ReturnsPromise (Fulfills 1 v)) l s = Some (Inl e2, s2)"
proof -
  let ?l = "fst (snd (fromArray_static (dense [JNum 1, JNum 2, JNum 3]) empty_store))"
  let ?s = "snd (snd (fromArray_static (dense [JNum 1, JNum 2, JNum 3]) empty_store))"
  let ?it = "\<lambda>v. if v = JNum 2 then ReturnsPromise (Rejects 9 (Error ''no''))
                    else ReturnsPromise (Fulfills 1 v)"
  from asyncMap_fails_as_a_whole[OF example_list(2), of ?it]
  obtain r1 s1 r2 s2 where m:
    "asyncMap ?it ?l ?s = Some (r1, s1)" "isl r1"
    "asyncMapRight ?it ?l ?s = Some (r2, s2)" "isl r2"
    by (auto simp: example_list_payloads simp del: getDatas.simps)
  from m(2,4) obtain e1 e2 where "r1 = Inl e1" "r2 = Inl e2"
    by (auto simp: isl_def)
  with m(1,3) example_list(1) show ?thesis by blast
qed

section \<open>Mapping with the identity\<close>

text \<open>
  Claim C7: on a well-formed list \<open>l\<close> with the nodes \<open>as\<close>, \<^verbatim>\<open>mapRight\<close> (the
  specification's \<^verbatim>\<open>mapReverse\<close>) with the identity, or with no iteratee, returns a
  new list: it is well formed on as many nodes \<open>bs\<close>, all of them allocated by the
  call and none of them a node of \<open>l\<close>, and its elements are those of \<open>l\<close> in reverse
  order (up to cloning). The list \<open>l\<close> is still well formed on its nodes \<open>as\<close>, none
  of which has changed, and its \<^verbatim>\<open>toArray\<close> is as before. On \<open>[1, 2, 3]\<close> the
  new list is \<open>[3, 2, 1]\<close>, which is the instance below. (A list object is a record
  here and is told from another by its nodes; the new list of an empty list is the
  empty list.)
\<close>

theorem mapRight_identity_reverses:
  assumes "wf_dll s l as" and "iteratee = None \<or> iteratee = Some (\<lambda>v. v)"
  shows "\<exists>l' s' bs orig s1 res s2 after s3.
     mapRight iteratee l s = Some (Inr (), l', s') \<and>
     wf_dll s' l' bs \<and> length bs = length as \<and>
     (\<forall>b \<in> set bs. next_node s \<le> b) \<and> set bs \<inter> set as = {} \<and>
     toArray l s = Some (orig, s1) \<and>
     toArray l' s' = Some (res, s2) \<and>
     list_all2 struct_eq res (rev orig) \<and>
     wf_dll s' l as \<and>
     map (nodes s') as = map (nodes s) as \<and>
     toArray l s' = Some (after, s3) \<and>
     list_all2 struct_eq after orig"
proof -
  let ?X = "fst (getDatas (rev as) s)" and ?sa = "snd (getDatas (rev as) s)"
  have loop: "mapRight_loop (\<lambda>v. v) (tail_node l) [] s = Some (?X, ?sa)"
    using mapRight_loop_path[of s "tail_node l" "rev as" "\<lambda>v. v" "[]"] assms(1)
    by (simp add: wf_dll_def)
  have m: "mapRight iteratee l s = Some (fromArray_static (dense ?X) ?sa)"
    using assms(2) loop by (auto simp: mapRight_def case_prod_beta)
  let ?l' = "fst (snd (fromArray_static (dense ?X) ?sa))"
  let ?s' = "snd (snd (fromArray_static (dense ?X) ?sa))"
  let ?bs = "[next_node s ..< next_node s + length as]"
  have ok: "fromArray_static (dense ?X) ?sa = (Inr (), ?l', ?s')"
    and wfn: "wf_dll ?s' ?l' ?bs"
    and nn: "next_node ?s' = next_node s + length as"
    using fromArray_static_wf[of "dense ?X" ?sa]
    by (simp_all add: prod_eq_iff present_dense getDatas_length getDatas_next_node)
  obtain res s2 where t: "toArray ?l' ?s' = Some (res, s2)" and st: "map strip res = map strip ?X"
    using fromArray_static_toArray[of "dense ?X" ?sa] by (auto simp: present_dense)
  have orig: "toArray l s = Some (fst (getDatas as s), snd (getDatas as s))"
    by (simp add: toArray_wf[OF assms(1)])
  have lt: "\<forall>a \<in> set as. a < next_node s" using assms(1) by (simp add: wf_dll_def)
  have fresh: "\<forall>b \<in> set ?bs. next_node s \<le> b" by simp
  have disj: "set ?bs \<inter> set as = {}" using lt by auto
  have "map strip res = map strip (rev (fst (getDatas as s)))"
    by (simp add: st getDatas_strip rev_map[symmetric])
  then have e1: "list_all2 struct_eq res (rev (fst (getDatas as s)))"
    by (rule struct_eq_map)
  have same: "\<forall>a \<in> set as. nodes ?s' a = nodes s a"
  proof
    fix a assume "a \<in> set as"
    with lt have "a < next_node ?sa" by (simp add: getDatas_next_node)
    then have "nodes ?s' a = nodes ?sa a"
      using fromArray_frame[where s="?sa" and l=new_dll and as="[]" and a=a and arr="dense ?X", OF wf_dll_new]
      by (simp add: fromArray_static_def)
    then show "nodes ?s' a = nodes s a" by (simp add: getDatas_nodes)
  qed
  have wf': "wf_dll ?s' l as"
    using assms(1) same by (rule wf_dll_frame) (simp add: nn)
  have after: "toArray l ?s' = Some (fst (getDatas as ?s'), snd (getDatas as ?s'))"
    by (simp add: toArray_wf[OF wf'])
  have "map strip (fst (getDatas as ?s')) = map strip (fst (getDatas as s))"
    using same by (simp add: getDatas_strip)
  then have e2: "list_all2 struct_eq (fst (getDatas as ?s')) (fst (getDatas as s))"
    by (rule struct_eq_map)
  have nodes_same: "map (nodes ?s') as = map (nodes s) as" using same by simp
  have lb: "length ?bs = length as" by simp
  show ?thesis
    apply (rule exI[of _ ?l'])
    apply (rule exI[of _ ?s'])
    apply (rule exI[of _ ?bs])
    apply (rule exI[of _ "fst (getDatas as s)"])
    apply (rule exI[of _ "snd (getDatas as s)"])
    apply (rule exI[of _ res])
    apply (rule exI[of _ s2])
    apply (rule exI[of _ "fst (getDatas as ?s')"])
    apply (rule exI[of _ "snd (getDatas as ?s')"])
    using m ok wfn lb fresh disj orig t e1 wf' nodes_same after e2 by simp
qed

theorem mapRight_identity_reverses_witness:
  "\<exists>l s l' s' s1 s2 s3.
     fromArray_static (dense [JNum 1, JNum 2, JNum 3]) empty_store = (Inr (), l, s) \<and>
     mapRight (Some (\<lambda>v. v)) l s = Some (Inr (), l', s') \<and>
     head_node l = Some 0 \<and> head_node l' = Some 3 \<and>
     toArray l s = Some ([JNum 1, JNum 2, JNum 3], s1) \<and>
     toArray l' s' = Some ([JNum 3, JNum 2, JNum 1], s2) \<and>
     toArray l s' = Some ([JNum 1, JNum 2, JNum 3], s3)"
proof -
  let ?l = "fst (snd (fromArray_static (dense [JNum 1, JNum 2, JNum 3]) empty_store))"
  let ?s = "snd (snd (fromArray_static (dense [JNum 1, JNum 2, JNum 3]) empty_store))"
  have orig: "toArray ?l ?s = Some ([JNum 1, JNum 2, JNum 3], ?s)"
    by (simp add: toArray_wf[OF example_list(2)] example_list_payloads del: getDatas.simps)
  have h: "head_node ?l = Some 0" by (simp add: eval_defs)
  have h': "map_option (\<lambda>r. head_node (fst (snd r))) (mapRight (Some (\<lambda>v. v)) ?l ?s) = Some (Some 3)"
    by (simp add: eval_defs mapRight_def mapRight_loop.simps)
  from mapRight_identity_reverses[OF example_list(2), of "Some (\<lambda>v. v)"]
  obtain l' s' res s2 after s3 where
    m: "mapRight (Some (\<lambda>v. v)) ?l ?s = Some (Inr (), l', s')"
    and t: "toArray l' s' = Some (res, s2)"
    and eq: "list_all2 struct_eq res (rev [JNum 1, JNum 2, JNum 3])"
    and t2: "toArray ?l s' = Some (after, s3)"
    and eq2: "list_all2 struct_eq after [JNum 1, JNum 2, JNum 3]"
    using orig by auto
  from eq have r: "res = [JNum 3, JNum 2, JNum 1]"
    by (auto simp: list_all2_Cons2 struct_eq_def elim!: strip.elims)
  from eq2 have a: "after = [JNum 1, JNum 2, JNum 3]"
    by (auto simp: list_all2_Cons2 struct_eq_def elim!: strip.elims)
  from h' m have hl: "head_node l' = Some 3" by simp
  from example_list(1) m h hl orig t t2 show ?thesis unfolding r a by blast
qed

text \<open>
  Claim C8: on a well-formed list \<open>l\<close> with the nodes \<open>as\<close>, \<^verbatim>\<open>map\<close> with the
  identity, or with no iteratee, returns a new list: it is well formed on as many nodes
  \<open>bs\<close>, all of them allocated by the call and none of them a node of \<open>l\<close>, and its
  \<^verbatim>\<open>toArray\<close> equals that of \<open>l\<close> (up to cloning). The list \<open>l\<close> is still well
  formed on its nodes \<open>as\<close>, none of which has changed, and its \<^verbatim>\<open>toArray\<close> is as
  before. (As above, the new list is told from \<open>l\<close> by its nodes.)
\<close>

theorem map_identity:
  assumes "wf_dll s l as" and "iteratee = None \<or> iteratee = Some (\<lambda>v. v)"
  shows "\<exists>l' s' bs orig s1 res s2 after s3.
     map_dll iteratee l s = Some (Inr (), l', s') \<and>
     wf_dll s' l' bs \<and> length bs = length as \<and>
     (\<forall>b \<in> set bs. next_node s \<le> b) \<and> set bs \<inter> set as = {} \<and>
     toArray l s = Some (orig, s1) \<and>
     toArray l' s' = Some (res, s2) \<and>
     list_all2 struct_eq res orig \<and>
     wf_dll s' l as \<and>
     map (nodes s') as = map (nodes s) as \<and>
     toArray l s' = Some (after, s3) \<and>
     list_all2 struct_eq after orig"
proof -
  let ?X = "fst (getDatas as s)" and ?sa = "snd (getDatas as s)"
  have loop: "map_loop (\<lambda>v. v) (head_node l) [] s = Some (?X, ?sa)"
    using map_loop_path[of s "head_node l" as "\<lambda>v. v" "[]"] assms(1)
    by (simp add: wf_dll_def)
  have m: "map_dll iteratee l s = Some (fromArray_static (dense ?X) ?sa)"
    using assms(2) loop by (auto simp: map_dll_def case_prod_beta)
  let ?l' = "fst (snd (fromArray_static (dense ?X) ?sa))"
  let ?s' = "snd (snd (fromArray_static (dense ?X) ?sa))"
  let ?bs = "[next_node s ..< next_node s + length as]"
  have ok: "fromArray_static (dense ?X) ?sa = (Inr (), ?l', ?s')"
    and wfn: "wf_dll ?s' ?l' ?bs"
    and nn: "next_node ?s' = next_node s + length as"
    using fromArray_static_wf[of "dense ?X" ?sa]
    by (simp_all add: prod_eq_iff present_dense getDatas_length getDatas_next_node)
  obtain res s2 where t: "toArray ?l' ?s' = Some (res, s2)" and st: "map strip res = map strip ?X"
    using fromArray_static_toArray[of "dense ?X" ?sa] by (auto simp: present_dense)
  have orig: "toArray l s = Some (?X, ?sa)"
    by (simp add: toArray_wf[OF assms(1)])
  have lt: "\<forall>a \<in> set as. a < next_node s" using assms(1) by (simp add: wf_dll_def)
  have fresh: "\<forall>b \<in> set ?bs. next_node s \<le> b" by simp
  have disj: "set ?bs \<inter> set as = {}" using lt by auto
  have e1: "list_all2 struct_eq res ?X" using st by (rule struct_eq_map)
  have same: "\<forall>a \<in> set as. nodes ?s' a = nodes s a"
  proof
    fix a assume "a \<in> set as"
    with lt have "a < next_node ?sa" by (simp add: getDatas_next_node)
    then have "nodes ?s' a = nodes ?sa a"
      using fromArray_frame[where s="?sa" and l=new_dll and as="[]" and a=a and arr="dense ?X", OF wf_dll_new]
      by (simp add: fromArray_static_def)
    then show "nodes ?s' a = nodes s a" by (simp add: getDatas_nodes)
  qed
  have wf': "wf_dll ?s' l as"
    using assms(1) same by (rule wf_dll_frame) (simp add: nn)
  have after: "toArray l ?s' = Some (fst (getDatas as ?s'), snd (getDatas as ?s'))"
    by (simp add: toArray_wf[OF wf'])
  have "map strip (fst (getDatas as ?s')) = map strip ?X"
    using same by (simp add: getDatas_strip)
  then have e2: "list_all2 struct_eq (fst (getDatas as ?s')) ?X" by (rule struct_eq_map)
  have nodes_same: "map (nodes ?s') as = map (nodes s) as" using same by simp
  have lb: "length ?bs = length as" by simp
  show ?thesis
    apply (rule exI[of _ ?l'])
    apply (rule exI[of _ ?s'])
    apply (rule exI[of _ ?bs])
    apply (rule exI[of _ ?X])
    apply (rule exI[of _ ?sa])
    apply (rule exI[of _ res])
    apply (rule exI[of _ s2])
    apply (rule exI[of _ "fst (getDatas as ?s')"])
    apply (rule exI[of _ "snd (getDatas as ?s')"])
    using m ok wfn lb fresh disj orig t e1 wf' nodes_same after e2 by simp
qed

theorem map_identity_witness:
  "\<exists>l s l' s' s1 s2 s3.
     fromArray_static (dense [JNum 1, JNum 2, JNum 3]) empty_store = (Inr (), l, s) \<and>
     map_dll None l s = Some (Inr (), l', s') \<and>
     head_node l = Some 0 \<and> head_node l' = Some 3 \<and>
     toArray l s = Some ([JNum 1, JNum 2, JNum 3], s1) \<and>
     toArray l' s' = Some ([JNum 1, JNum 2, JNum 3], s2) \<and>
     toArray l s' = Some ([JNum 1, JNum 2, JNum 3], s3)"
proof -
  let ?l = "fst (snd (fromArray_static (dense [JNum 1, JNum 2, JNum 3]) empty_store))"
  let ?s = "snd (snd (fromArray_static (dense [JNum 1, JNum 2, JNum 3]) empty_store))"
  have orig: "toArray ?l ?s = Some ([JNum 1, JNum 2, JNum 3], ?s)"
    by (simp add: toArray_wf[OF example_list(2)] example_list_payloads del: getDatas.simps)
  have h: "head_node ?l = Some 0" by (simp add: eval_defs)
  have h': "map_option (\<lambda>r. head_node (fst (snd r))) (map_dll None ?l ?s) = Some (Some 3)"
    by (simp add: eval_defs map_dll_def map_loop.simps)
  from map_identity[OF example_list(2), of None]
  obtain l' s' res s2 after s3 where
    m: "map_dll None ?l ?s = Some (Inr (), l', s')"
    and t: "toArray l' s' = Some (res, s2)"
    and eq: "list_all2 struct_eq res [JNum 1, JNum 2, JNum 3]"
    and t2: "toArray ?l s' = Some (after, s3)"
    and eq2: "list_all2 struct_eq after [JNum 1, JNum 2, JNum 3]"
    using orig by auto
  from eq have r: "res = [JNum 1, JNum 2, JNum 3]"
    by (auto simp: list_all2_Cons2 struct_eq_def elim!: strip.elims)
  from eq2 have a: "after = [JNum 1, JNum 2, JNum 3]"
    by (auto simp: list_all2_Cons2 struct_eq_def elim!: strip.elims)
  from h' m have hl: "head_node l' = Some 3" by simp
  from example_list(1) m h hl orig t t2 show ?thesis unfolding r a by blast
qed

section \<open>The asynchronous fold refines the synchronous one\<close>

text \<open>
  Claim C9, amended. Let the asynchronous iteratee \<open>g\<close> return, on every payload and
  accumulator, the value of \<open>f\<close>, either as a plain value or as a promise fulfilled
  with it. Then on a well-formed list \<^verbatim>\<open>asyncReduce\<close> with \<open>g\<close> is fulfilled with the
  result of \<^verbatim>\<open>reduce\<close> with \<open>f\<close>, and \<^verbatim>\<open>asyncReduceRight\<close> with the result of
  \<^verbatim>\<open>reduceRight\<close>. In particular, for one iteratee \<open>it\<close> that returns plain values,
  the asynchronous fold with \<open>it\<close> is fulfilled with the result of the synchronous fold
  with \<open>it\<close>.
\<close>

theorem asyncReduce_refines_reduce:
  assumes "wf_dll s l as"
    and "\<forall>d acc. g d acc = Returns (f d acc) \<or> (\<exists>t. g d acc = ReturnsPromise (Fulfills t (f d acc)))"
  shows "(\<exists>r s'. reduce f init l s = Some (r, s') \<and>
                  asyncReduce g init l s = Some (Inr r, s')) \<and>
         (\<exists>r s'. reduceRight f init l s = Some (r, s') \<and>
                  asyncReduceRight g init l s = Some (Inr r, s')) \<and>
         ((\<forall>d v. it d (Plain v) = Plain (f d v)) \<longrightarrow>
            (\<exists>r s'. reduce it (Plain init) l s = Some (Plain r, s') \<and>
                     asyncReduce (\<lambda>d acc. as_result (it d (Plain acc))) init l s
                       = Some (Inr r, s')) \<and>
            (\<exists>r s'. reduceRight it (Plain init) l s = Some (Plain r, s') \<and>
                     asyncReduceRight (\<lambda>d acc. as_result (it d (Plain acc))) init l s
                       = Some (Inr r, s')))"
proof -
  have g: "\<And>d acc. await_resolve (g d acc) = Inr (f d acc)"
    using assms(2) by (metis await_resolve_def Promise_resolve.simps(1,2) await.simps(1) sum.case(2))
  have n: "path (getNext s) (head_node l) as None" and p: "path (getPrev s) (tail_node l) (rev as) None"
    using assms(1) by (simp_all add: wf_dll_def)
  have A: "(\<exists>r s'. reduce f init l s = Some (r, s') \<and>
                  asyncReduce g init l s = Some (Inr r, s')) \<and>
         (\<exists>r s'. reduceRight f init l s = Some (r, s') \<and>
                  asyncReduceRight g init l s = Some (Inr r, s'))"
    by (simp add: reduce_def asyncReduce_def reduceRight_def asyncReduceRight_def
        reduce_loop_path[OF n] reduceRight_loop_path[OF p]
        asyncReduce_stepper_path[of g f, OF g n] asyncReduceRight_stepper_path[of g f, OF g p])
  have B: "(\<forall>d v. it d (Plain v) = Plain (f d v)) \<longrightarrow>
            (\<exists>r s'. reduce it (Plain init) l s = Some (Plain r, s') \<and>
                     asyncReduce (\<lambda>d acc. as_result (it d (Plain acc))) init l s
                       = Some (Inr r, s')) \<and>
            (\<exists>r s'. reduceRight it (Plain init) l s = Some (Plain r, s') \<and>
                     asyncReduceRight (\<lambda>d acc. as_result (it d (Plain acc))) init l s
                       = Some (Inr r, s'))"
  proof
    assume it: "\<forall>d v. it d (Plain v) = Plain (f d v)"
    let ?g = "\<lambda>d acc. as_result (it d (Plain acc))"
    have g': "\<And>d acc. await_resolve (?g d acc) = Inr (f d acc)"
      using it by (simp add: await_resolve_def)
    show "(\<exists>r s'. reduce it (Plain init) l s = Some (Plain r, s') \<and>
                     asyncReduce ?g init l s = Some (Inr r, s')) \<and>
            (\<exists>r s'. reduceRight it (Plain init) l s = Some (Plain r, s') \<and>
                     asyncReduceRight ?g init l s = Some (Inr r, s'))"
      by (simp add: reduce_def asyncReduce_def reduceRight_def asyncReduceRight_def
        reduce_loop_path[OF n] reduceRight_loop_path[OF p] foldl_Plain[OF it]
        asyncReduce_stepper_path[of ?g f, OF g' n] asyncReduceRight_stepper_path[of ?g f, OF g' p])
  qed
  from A B show ?thesis by blast
qed

theorem asyncReduce_refines_reduce_witness:
  "\<exists>l s s1 s2.
     fromArray_static (dense [JNum 1, JNum 2, JNum 3]) empty_store = (Inr (), l, s) \<and>
     reduce sum_iteratee (JNum 0) l s = Some (JNum 6, s1) \<and>
     asyncReduce (\<lambda>d acc. if d = JNum 2 then ReturnsPromise (Fulfills 4 (sum_iteratee d acc))
                           else Returns (sum_iteratee d acc)) (JNum 0) l s = Some (Inr (JNum 6), s1) \<and>
     reduceRight sum_iteratee (JNum 0) l s = Some (JNum 6, s2) \<and>
     asyncReduceRight (\<lambda>d acc. if d = JNum 2 then ReturnsPromise (Fulfills 4 (sum_iteratee d acc))
                           else Returns (sum_iteratee d acc)) (JNum 0) l s = Some (Inr (JNum 6), s2) \<and>
     reduce plain_sum (Plain (JNum 0)) l s = Some (Plain (JNum 6), s1) \<and>
     asyncReduce (\<lambda>d acc. as_result (plain_sum d (Plain acc))) (JNum 0) l s = Some (Inr (JNum 6), s1)"
proof -
  let ?l = "fst (snd (fromArray_static (dense [JNum 1, JNum 2, JNum 3]) empty_store))"
  let ?s = "snd (snd (fromArray_static (dense [JNum 1, JNum 2, JNum 3]) empty_store))"
  let ?g = "\<lambda>d acc. if d = JNum 2 then ReturnsPromise (Fulfills 4 (sum_iteratee d acc))
                           else Returns (sum_iteratee d acc)"
  have g: "\<forall>d acc. ?g d acc = Returns (sum_iteratee d acc) \<or>
             (\<exists>t. ?g d acc = ReturnsPromise (Fulfills t (sum_iteratee d acc)))"
    by simp
  have it: "\<forall>d v. plain_sum d (Plain v) = Plain (sum_iteratee d v)" by simp
  have n: "path (getNext ?s) (head_node ?l) [0, Suc 0, Suc (Suc 0)] None"
    and p: "path (getPrev ?s) (tail_node ?l) (rev [0, Suc 0, Suc (Suc 0)]) None"
    using example_list(2) by (simp_all only: wf_dll_def)
  have r1: "reduce sum_iteratee (JNum 0) ?l ?s = Some (JNum 6, ?s)"
    by (simp add: reduce_def reduce_loop_path[OF n] example_list_payloads del: getDatas.simps)
  have r2: "reduceRight sum_iteratee (JNum 0) ?l ?s = Some (JNum 6, ?s)"
    using reduceRight_loop_path[OF p, where f=sum_iteratee and acc="JNum 0"]
    by (simp add: reduceRight_def example_list_payloads del: getDatas.simps)
  from asyncReduce_refines_reduce[OF example_list(2) g, of "JNum 0" plain_sum] r1 r2 it
  have a1: "asyncReduce ?g (JNum 0) ?l ?s = Some (Inr (JNum 6), ?s)"
    and a2: "asyncReduceRight ?g (JNum 0) ?l ?s = Some (Inr (JNum 6), ?s)"
    and ex: "\<exists>r s'. reduce plain_sum (Plain (JNum 0)) ?l ?s = Some (Plain r, s') \<and>
           asyncReduce (\<lambda>d acc. as_result (plain_sum d (Plain acc))) (JNum 0) ?l ?s = Some (Inr r, s')"
    by auto
  have rp: "reduce plain_sum (Plain (JNum 0)) ?l ?s = Some (Plain (JNum 6), ?s)"
    by (simp add: reduce_def reduce_loop_path[OF n] example_list_payloads del: getDatas.simps)
  from ex rp have a3: "asyncReduce (\<lambda>d acc. as_result (plain_sum d (Plain acc))) (JNum 0) ?l ?s
      = Some (Inr (JNum 6), ?s)"
    by auto
  from example_list(1) r1 a1 r2 a2 rp a3 show ?thesis by blast
qed

text \<open>
  The claim as stated, for one iteratee that returns a pending computation: with
  \<^verbatim>\<open>(v, acc) => Promise.resolve(v)\<close> on \<open>[1, 2]\<close>, \<^verbatim>\<open>asyncReduce\<close> is fulfilled with
  2, while \<^verbatim>\<open>reduce\<close>, which awaits nothing, returns the promise object that the last
  call of the iteratee returned.
\<close>

theorem reduce_does_not_await_counterexample:
  "reduce promise_of_payload (Plain (JNum 0))
      (fst (snd (fromArray_static (dense [JNum 1, JNum 2]) empty_store)))
      (snd (snd (fromArray_static (dense [JNum 1, JNum 2]) empty_store)))
     = Some (Pending (Fulfills 0 (JNum 2)),
             snd (snd (fromArray_static (dense [JNum 1, JNum 2]) empty_store))) \<and>
   asyncReduce (\<lambda>v acc. as_result (promise_of_payload v (Plain acc))) (JNum 0)
      (fst (snd (fromArray_static (dense [JNum 1, JNum 2]) empty_store)))
      (snd (snd (fromArray_static (dense [JNum 1, JNum 2]) empty_store)))
     = Some (Inr (JNum 2),
             snd (snd (fromArray_static (dense [JNum 1, JNum 2]) empty_store))) \<and>
   Pending (Fulfills 0 (JNum 2)) \<noteq> Plain (JNum 2) \<and>
   reduceRight promise_of_payload (Plain (JNum 0))
      (fst (snd (fromArray_static (dense [JNum 1, JNum 2]) empty_store)))
      (snd (snd (fromArray_static (dense [JNum 1, JNum 2]) empty_store)))
     = Some (Pending (Fulfills 0 (JNum 1)),
             snd (snd (fromArray_static (dense [JNum 1, JNum 2]) empty_store))) \<and>
   asyncReduceRight (\<lambda>v acc. as_result (promise_of_payload v (Plain acc))) (JNum 0)
      (fst (snd (fromArray_static (dense [JNum 1, JNum 2]) empty_store)))
      (snd (snd (fromArray_static (dense [JNum 1, JNum 2]) empty_store)))
     = Some (Inr (JNum 1),
             snd (snd (fromArray_static (dense [JNum 1, JNum 2]) empty_store)))"
  by (simp add: eval_defs reduce_def reduceRight_def asyncReduce_def asyncReduceRight_def
      reduce_loop.simps reduceRight_loop.simps asyncReduce_stepper.simps
      asyncReduceRight_stepper.simps promise_of_payload_def await_resolve_def)

section \<open>The sentinel and a stored null\<close>

text \<open>
  Claim C10: \<^verbatim>\<open>null\<close> as the answer of \<^verbatim>\<open>head\<close>, \<^verbatim>\<open>tail\<close> and \<^verbatim>\<open>find\<close> does not tell
  a missing element from a stored \<^verbatim>\<open>null\<close>. On the list built from \<open>[null, 1]\<close>,
  \<^verbatim>\<open>head\<close> returns \<^verbatim>\<open>null\<close> as it does on the empty list, and \<^verbatim>\<open>find\<close> returns
  \<^verbatim>\<open>null\<close> both for a predicate that accepts the stored \<^verbatim>\<open>null\<close> and for one that
  accepts nothing; \<^verbatim>\<open>tail\<close> returns \<^verbatim>\<open>null\<close> on \<open>[1, null]\<close> and on the empty list.
\<close>

theorem null_sentinel_ambiguous:
  "(case fromArray_static (dense [JNull, JNum 1]) empty_store of
      (r, l, s) \<Rightarrow>
        r = Inr () \<and> length_dll l = 2 \<and> headNode l = Some 0 \<and>
        fst (head l s) = JNull \<and>
        fst (head new_dll empty_store) = JNull \<and>
        map_option fst (find_dll (\<lambda>v. v = JNull) l s) = Some JNull \<and>
        map_option fst (find_dll (\<lambda>v. v = JNum 5) l s) = Some JNull) \<and>
   (case fromArray_static (dense [JNum 1, JNull]) empty_store of
      (r, l, s) \<Rightarrow>
        r = Inr () \<and> tailNode l = Some 1 \<and>
        fst (tail l s) = JNull \<and>
        fst (tail new_dll empty_store) = JNull)"
  by (simp add: eval_defs find_dll_def findNode_loop.simps)

end
